theory Spec2Isabelle
  imports Main "HOL-Library.Word" "HOL-Library.Sublist"
begin

section \<open>Library functions used by both services\<close>

text \<open>
  Go strings are byte sequences, modelled as \<open>string\<close>. \<open>strings.Contains s substr\<close>
  reports whether \<open>substr\<close> occurs in \<open>s\<close> as a contiguous run of bytes; the empty
  string occurs in every string.
\<close>

fun Contains :: "string \<Rightarrow> string \<Rightarrow> bool" where
  "Contains [] substr = (substr = [])"
| "Contains (c # s) substr = (prefix substr (c # s) \<or> Contains s substr)"

text \<open>
  \<open>strings.ToLower\<close> (a Unicode case mapping) belongs to the standard library, not to
  the repository: it is a parameter \<open>ToLower\<close> of everything that calls it.
  \<open>ascii_ToLower\<close> is the mapping restricted to ASCII letters, used to run the
  definitions on concrete requests.
\<close>

definition containsIgnoreCase :: "(string \<Rightarrow> string) \<Rightarrow> string \<Rightarrow> string \<Rightarrow> bool" where
  "containsIgnoreCase ToLower str substr = Contains (ToLower str) (ToLower substr)"

definition ascii_lower_char :: "char \<Rightarrow> char" where
  "ascii_lower_char c =
     (let n = (of_char c :: nat)
      in if 65 \<le> n \<and> n \<le> 90 then char_of (n + 32) else c)"

definition ascii_ToLower :: "string \<Rightarrow> string" where
  "ascii_ToLower s = map ascii_lower_char s"

section \<open>The Gin todo service\<close>

record Todo =
  ID :: string
  Item :: string
  Completed :: bool

text \<open>The package-level slice \<open>TODOS\<close> as the program starts.\<close>

definition TODOS_init :: "Todo list" where
  "TODOS_init =
     [\<lparr>ID = ''1'', Item = ''Buy groceries'', Completed = False\<rparr>,
      \<lparr>ID = ''2'', Item = ''Read a book'', Completed = False\<rparr>,
      \<lparr>ID = ''3'', Item = ''Write code'', Completed = False\<rparr>,
      \<lparr>ID = ''4'', Item = ''Go for a walk'', Completed = False\<rparr>]"

text \<open>
  What a handler writes to the client: the status code and the JSON body. A handler is a
  function from the request data and the store to the response and the store it leaves.
\<close>

datatype todo_body =
    TodoList "Todo list"
  | TodoJSON Todo
  | MessageJSON string
  | ErrorJSON string

type_synonym todo_response = "nat \<times> todo_body"

text \<open>
  \<open>getTodoById\<close> returns \<open>&TODOS[i]\<close> for the first \<open>i\<close> whose ID matches: the pointer is
  the index \<open>i\<close> into the store, and the error is \<open>None\<close>.
\<close>

fun getTodoById :: "string \<Rightarrow> Todo list \<Rightarrow> nat option" where
  "getTodoById id' [] = None"
| "getTodoById id' (todo # rest) =
     (if Todo.ID todo = id' then Some 0 else map_option Suc (getTodoById id' rest))"

text \<open>
  The loop of \<open>getTodos\<close>: each \<open>continue\<close> skips the todo, otherwise it is appended to
  \<open>filtered\<close>. \<open>query\<close> and \<open>status\<close> are the query parameters, empty when absent.
\<close>

fun getTodos_loop ::
  "(string \<Rightarrow> string) \<Rightarrow> string \<Rightarrow> string \<Rightarrow> Todo list \<Rightarrow> Todo list \<Rightarrow> Todo list" where
  "getTodos_loop ToLower query status [] filtered = filtered"
| "getTodos_loop ToLower query status (todo # rest) filtered =
     (if query \<noteq> [] \<and> \<not> containsIgnoreCase ToLower (Item todo) query
        then getTodos_loop ToLower query status rest filtered
      else if status = ''true'' \<and> \<not> Completed todo
        then getTodos_loop ToLower query status rest filtered
      else if status = ''false'' \<and> Completed todo
        then getTodos_loop ToLower query status rest filtered
      else getTodos_loop ToLower query status rest (filtered @ [todo]))"

definition getTodos ::
  "(string \<Rightarrow> string) \<Rightarrow> string \<Rightarrow> string \<Rightarrow> Todo list \<Rightarrow> todo_response \<times> Todo list" where
  "getTodos ToLower query status TODOS =
     ((200, TodoList (getTodos_loop ToLower query status TODOS [])), TODOS)"

text \<open>\<open>addTodo\<close>: the body is \<open>Inl err\<close> when \<open>BindJSON\<close> fails, \<open>Inr newTodo\<close> otherwise.\<close>

definition addTodo :: "string + Todo \<Rightarrow> Todo list \<Rightarrow> todo_response \<times> Todo list" where
  "addTodo body TODOS =
     (case body of
        Inl err \<Rightarrow> ((400, ErrorJSON err), TODOS)
      | Inr newTodo \<Rightarrow> ((201, TodoJSON newTodo), TODOS @ [newTodo]))"

definition getTodo :: "string \<Rightarrow> Todo list \<Rightarrow> todo_response \<times> Todo list" where
  "getTodo id' TODOS =
     (case getTodoById id' TODOS of
        None \<Rightarrow> ((404, MessageJSON ''Todo not found''), TODOS)
      | Some i \<Rightarrow> ((200, TodoJSON (TODOS ! i)), TODOS))"

text \<open>\<open>updateTodoStatus\<close> writes through the pointer: the store changes at index \<open>i\<close>.\<close>

definition updateTodoStatus :: "string \<Rightarrow> Todo list \<Rightarrow> todo_response \<times> Todo list" where
  "updateTodoStatus id' TODOS =
     (case getTodoById id' TODOS of
        None \<Rightarrow> ((404, MessageJSON ''Todo not found''), TODOS)
      | Some i \<Rightarrow>
          (let todo = (TODOS ! i)\<lparr>Completed := \<not> Completed (TODOS ! i)\<rparr>
           in ((200, TodoJSON todo), TODOS[i := todo])))"

text \<open>
  \<open>deleteTodo\<close>: the first todo whose ID matches is cut out with
  \<open>slices.Delete(TODOS, i, i+1)\<close>.
\<close>

definition slices_Delete :: "'a list \<Rightarrow> nat \<Rightarrow> nat \<Rightarrow> 'a list" where
  "slices_Delete s i j = take i s @ drop j s"

fun deleteTodo_loop :: "string \<Rightarrow> Todo list \<Rightarrow> nat option" where
  "deleteTodo_loop id' [] = None"
| "deleteTodo_loop id' (todo # rest) =
     (if Todo.ID todo = id' then Some 0 else map_option Suc (deleteTodo_loop id' rest))"

definition deleteTodo :: "string \<Rightarrow> Todo list \<Rightarrow> todo_response \<times> Todo list" where
  "deleteTodo id' TODOS =
     (case deleteTodo_loop id' TODOS of
        Some i \<Rightarrow> ((200, MessageJSON ''Todo deleted''), slices_Delete TODOS i (i + 1))
      | None \<Rightarrow> ((404, MessageJSON ''Todo not found''), TODOS))"

text \<open>
  What the list endpoint of the todo service promises, in the words of its description:
  the todo's item contains the query, compared case-insensitively, when a query is given,
  and its status is the requested one when \<open>status\<close> is \<open>true\<close> or \<open>false\<close>.
\<close>

definition todo_satisfies :: "(string \<Rightarrow> string) \<Rightarrow> string \<Rightarrow> string \<Rightarrow> Todo \<Rightarrow> bool" where
  "todo_satisfies ToLower query status todo =
     ((query = [] \<or> containsIgnoreCase ToLower (Item todo) query) \<and>
      (status = ''true'' \<longrightarrow> Completed todo) \<and>
      (status = ''false'' \<longrightarrow> \<not> Completed todo))"

section \<open>The Fiber book service\<close>

text \<open>Go's \<open>int\<close> on a 64-bit target: \<open>+\<close> wraps around, comparisons are signed.\<close>

type_synonym go_int = "64 word"

record Book =
  ID :: go_int
  Title :: string
  Author :: string
  Genre :: string
  Pages :: go_int
  Available :: bool
  PublishedYear :: go_int

text \<open>The package-level variables \<open>library\<close> and \<open>nextID\<close>.\<close>

record store =
  library :: "Book list"
  nextID :: go_int

definition store_init :: store where
  "store_init =
     \<lparr>library =
        [\<lparr>ID = 1, Title = ''The Go Programming Language'', Author = ''Alan Donovan'',
          Genre = ''Technology'', Pages = 380, Available = True, PublishedYear = 2015\<rparr>,
         \<lparr>ID = 2, Title = ''Clean Code'', Author = ''Robert Martin'',
          Genre = ''Technology'', Pages = 464, Available = False, PublishedYear = 2008\<rparr>,
         \<lparr>ID = 3, Title = ''The Pragmatic Programmer'', Author = ''Dave Thomas'',
          Genre = ''Technology'', Pages = 352, Available = True, PublishedYear = 1999\<rparr>,
         \<lparr>ID = 4, Title = ''Design Patterns'', Author = ''Gang of Four'',
          Genre = ''Technology'', Pages = 395, Available = True, PublishedYear = 1994\<rparr>],
      nextID = 5\<rparr>"

text \<open>
  The JSON bodies of the book service: the list with its total, a book, a message with
  or without a book, an error with or without details.
\<close>

datatype book_body =
    BookList "Book list" nat
  | BookJSON Book
  | BookMessage string "Book option"
  | BookError string "string option"

type_synonym book_response = "nat \<times> book_body"

definition bookMatchesSearch :: "(string \<Rightarrow> string) \<Rightarrow> Book \<Rightarrow> string \<Rightarrow> bool" where
  "bookMatchesSearch ToLower book searchTerm =
     (containsIgnoreCase ToLower (Title book) searchTerm \<or>
      containsIgnoreCase ToLower (Author book) searchTerm)"

text \<open>
  \<open>findBookByID\<close> returns a pointer to the loop's copy of the book, and the index: the
  model returns the copy and the index, \<open>None\<close> for the error.
\<close>

fun findBookByID :: "go_int \<Rightarrow> Book list \<Rightarrow> (Book \<times> nat) option" where
  "findBookByID id' [] = None"
| "findBookByID id' (book # rest) =
     (if Book.ID book = id' then Some (book, 0)
      else map_option (\<lambda>(b, i). (b, Suc i)) (findBookByID id' rest))"

text \<open>
  The loop of \<open>getAllBooks\<close>. \<open>strings.EqualFold\<close> and \<open>strconv.ParseBool\<close> are standard
  library functions, parameters here like \<open>ToLower\<close>; \<open>ParseBool\<close> returns \<open>None\<close> for
  its error.
\<close>

fun getAllBooks_loop ::
  "(string \<Rightarrow> string) \<Rightarrow> (string \<Rightarrow> string \<Rightarrow> bool) \<Rightarrow> (string \<Rightarrow> bool option) \<Rightarrow>
   string \<Rightarrow> string \<Rightarrow> string \<Rightarrow> Book list \<Rightarrow> Book list \<Rightarrow> Book list" where
  "getAllBooks_loop ToLower EqualFold ParseBool search genre availableStr [] filtered = filtered"
| "getAllBooks_loop ToLower EqualFold ParseBool search genre availableStr (book # rest) filtered =
     (if search \<noteq> [] \<and> \<not> bookMatchesSearch ToLower book search
        then getAllBooks_loop ToLower EqualFold ParseBool search genre availableStr rest filtered
      else if genre \<noteq> [] \<and> \<not> EqualFold (Genre book) genre
        then getAllBooks_loop ToLower EqualFold ParseBool search genre availableStr rest filtered
      else if availableStr \<noteq> [] \<and>
              (case ParseBool availableStr of
                 Some available \<Rightarrow> Available book \<noteq> available
               | None \<Rightarrow> False)
        then getAllBooks_loop ToLower EqualFold ParseBool search genre availableStr rest filtered
      else getAllBooks_loop ToLower EqualFold ParseBool search genre availableStr rest
             (filtered @ [book]))"

definition getAllBooks ::
  "(string \<Rightarrow> string) \<Rightarrow> (string \<Rightarrow> string \<Rightarrow> bool) \<Rightarrow> (string \<Rightarrow> bool option) \<Rightarrow>
   string \<Rightarrow> string \<Rightarrow> string \<Rightarrow> store \<Rightarrow> book_response \<times> store" where
  "getAllBooks ToLower EqualFold ParseBool search genre availableStr s =
     (let filtered =
            getAllBooks_loop ToLower EqualFold ParseBool search genre availableStr (library s) []
      in ((200, BookList filtered (length filtered)), s))"

text \<open>
  \<open>createBook\<close>: the body is \<open>Inl err\<close> when \<open>BodyParser\<close> fails, \<open>Inr newBook\<close> otherwise.
\<close>

definition createBook :: "string + Book \<Rightarrow> store \<Rightarrow> book_response \<times> store" where
  "createBook body s =
     (case body of
        Inl err \<Rightarrow> ((400, BookError ''Cannot parse JSON'' (Some err)), s)
      | Inr newBook \<Rightarrow>
          if Title newBook = [] \<or> Author newBook = []
          then ((400, BookError ''Title and Author are required'' None), s)
          else
            (let newBook = newBook\<lparr>ID := nextID s\<rparr>
             in ((201, BookMessage ''Book added successfully'' (Some newBook)),
                 s\<lparr>library := library s @ [newBook], nextID := nextID s + 1\<rparr>)))"

text \<open>
  The handlers below read the path parameter \<open>idStr\<close> with \<open>strconv.Atoi\<close>, a parameter
  \<open>Atoi\<close> that returns \<open>None\<close> for its error.
\<close>

definition getBook :: "(string \<Rightarrow> go_int option) \<Rightarrow> string \<Rightarrow> store \<Rightarrow> book_response \<times> store" where
  "getBook Atoi idStr s =
     (case Atoi idStr of
        None \<Rightarrow> ((400, BookError ''Invalid book ID'' None), s)
      | Some id' \<Rightarrow>
          (case findBookByID id' (library s) of
             None \<Rightarrow> ((404, BookError ''Book not found'' None), s)
           | Some (book, index) \<Rightarrow> ((200, BookJSON book), s)))"

definition updateBook ::
  "(string \<Rightarrow> go_int option) \<Rightarrow> string \<Rightarrow> string + Book \<Rightarrow> store \<Rightarrow> book_response \<times> store" where
  "updateBook Atoi idStr body s =
     (case Atoi idStr of
        None \<Rightarrow> ((400, BookError ''Invalid book ID'' None), s)
      | Some id' \<Rightarrow>
          (case findBookByID id' (library s) of
             None \<Rightarrow> ((404, BookError ''Book not found'' None), s)
           | Some (book, index) \<Rightarrow>
               (case body of
                  Inl err \<Rightarrow> ((400, BookError ''Cannot parse JSON'' (Some err)), s)
                | Inr updates \<Rightarrow>
                    (let updates = updates\<lparr>ID := id'\<rparr>
                     in ((200, BookMessage ''Book updated successfully'' (Some updates)),
                         s\<lparr>library := (library s)[index := updates]\<rparr>)))))"

definition toggleBookAvailability ::
  "(string \<Rightarrow> go_int option) \<Rightarrow> string \<Rightarrow> store \<Rightarrow> book_response \<times> store" where
  "toggleBookAvailability Atoi idStr s =
     (case Atoi idStr of
        None \<Rightarrow> ((400, BookError ''Invalid book ID'' None), s)
      | Some id' \<Rightarrow>
          (case findBookByID id' (library s) of
             None \<Rightarrow> ((404, BookError ''Book not found'' None), s)
           | Some (book, index) \<Rightarrow>
               (let toggled = (library s ! index)\<lparr>Available := \<not> Available book\<rparr>
                in ((200, BookMessage ''Book availability updated'' (Some toggled)),
                    s\<lparr>library := (library s)[index := toggled]\<rparr>))))"

fun deleteBook_loop :: "go_int \<Rightarrow> Book list \<Rightarrow> nat option" where
  "deleteBook_loop id' [] = None"
| "deleteBook_loop id' (book # rest) =
     (if Book.ID book = id' then Some 0 else map_option Suc (deleteBook_loop id' rest))"

definition deleteBook ::
  "(string \<Rightarrow> go_int option) \<Rightarrow> string \<Rightarrow> store \<Rightarrow> book_response \<times> store" where
  "deleteBook Atoi idStr s =
     (case Atoi idStr of
        None \<Rightarrow> ((400, BookError ''Invalid book ID'' None), s)
      | Some id' \<Rightarrow>
          (case deleteBook_loop id' (library s) of
             Some i \<Rightarrow>
               ((200, BookMessage ''Book deleted successfully'' None),
                s\<lparr>library := slices_Delete (library s) i (i + 1)\<rparr>)
           | None \<Rightarrow> ((404, BookError ''Book not found'' None), s)))"

text \<open>
  What the list endpoint of the book service promises: title or author contains the
  search term, compared case-insensitively, when one is given; the genre is the given
  one under \<open>EqualFold\<close>, when one is given; the availability is the given one, when
  \<open>available\<close> is given and is a boolean for \<open>ParseBool\<close>.
\<close>

definition book_satisfies ::
  "(string \<Rightarrow> string) \<Rightarrow> (string \<Rightarrow> string \<Rightarrow> bool) \<Rightarrow> (string \<Rightarrow> bool option) \<Rightarrow>
   string \<Rightarrow> string \<Rightarrow> string \<Rightarrow> Book \<Rightarrow> bool" where
  "book_satisfies ToLower EqualFold ParseBool search genre availableStr book =
     ((search = [] \<or> containsIgnoreCase ToLower (Title book) search
                   \<or> containsIgnoreCase ToLower (Author book) search) \<and>
      (genre = [] \<or> EqualFold (Genre book) genre) \<and>
      (availableStr = [] \<or>
       (case ParseBool availableStr of
          None \<Rightarrow> True
        | Some available \<Rightarrow> Available book = available)))"

text \<open>
  Instances of the library parameters for running the handlers on concrete requests:
  \<open>ParseBool\<close> as the standard library defines it, \<open>EqualFold\<close> on ASCII, and \<open>Atoi\<close> on
  the decimal strings of one digit.
\<close>

definition std_ParseBool :: "string \<Rightarrow> bool option" where
  "std_ParseBool str =
     (if str \<in> set [''1'', ''t'', ''T'', ''true'', ''TRUE'', ''True''] then Some True
      else if str \<in> set [''0'', ''f'', ''F'', ''false'', ''FALSE'', ''False''] then Some False
      else None)"

definition ascii_EqualFold :: "string \<Rightarrow> string \<Rightarrow> bool" where
  "ascii_EqualFold s t = (ascii_ToLower s = ascii_ToLower t)"

definition digit_Atoi :: "string \<Rightarrow> go_int option" where
  "digit_Atoi str =
     (case str of
        [c] \<Rightarrow> (let n = (of_char c :: nat)
                in if 48 \<le> n \<and> n \<le> 57 then Some (of_nat (n - 48)) else None)
      | _ \<Rightarrow> None)"

text \<open>
  The invariant of the book store: the IDs in the library are pairwise distinct, and
  \<open>nextID\<close> is greater than each of them, as Go compares two \<open>int\<close>s.
  \<open>max_go_int\<close> is the largest \<open>int\<close>, where \<open>nextID++\<close> wraps around.
\<close>

definition ids_distinct :: "store \<Rightarrow> bool" where
  "ids_distinct s = distinct (map Book.ID (library s))"

definition nextID_above :: "store \<Rightarrow> bool" where
  "nextID_above s = list_all (\<lambda>book. Book.ID book <s nextID s) (library s)"

definition max_go_int :: go_int where
  "max_go_int = 9223372036854775807"

section \<open>Requests served concurrently\<close>

text \<open>
  Both servers run each request's handler in a goroutine of its own, and no handler
  takes a lock before it reaches the package-level variables. A handler in progress is
  a flow: what is left of its body, as a sequence of accesses of the store.
  \<^item> \<open>Read h\<close>: the handler evaluates a package-level variable and goes on as
    \<open>h\<close> of what it found. A loop over the slice is one \<open>Read\<close>: the handler stays
    between this step and its \<open>Return\<close> while it walks the elements.
  \<^item> \<open>Update u f\<close>: the handler assigns a variable, or an element or field through an
    index or pointer; \<open>u\<close> is the change of the store, \<open>f\<close> the rest of the handler.
    An assignment \<open>x = e(x)\<close> or \<open>x++\<close> is a \<open>Read\<close> followed by an \<open>Update\<close>.
  \<^item> \<open>Return r\<close>: the handler writes the response \<open>r\<close> and returns.
  \<^item> \<open>Panic\<close>: an index is out of range; the handler ends without a response of its
    own.

  The store is the value of the variables. Slices share their backing arrays in Go, so
  an \<open>append\<close> into spare capacity, the shift of \<open>slices.Delete\<close> and a write through a
  pointer can reach memory that an overlapping handler still holds. The value of the
  store is exact for the schedules called isolated below, where no handler writes
  while another is between its first access and its response, and for handlers that
  start from the initial slices, whose length is their capacity, so that \<open>append\<close>
  copies.
\<close>

datatype ('s, 'r) flow =
    Read "'s \<Rightarrow> ('s, 'r) flow"
  | Update "'s \<Rightarrow> 's" "('s, 'r) flow"
  | Return 'r
  | Panic

text \<open>A flow run alone, from start to end, on a store.\<close>

primrec exec :: "('s, 'r) flow \<Rightarrow> 's \<Rightarrow> 'r option \<times> 's" where
  "exec (Read h) s = exec (h s) s"
| "exec (Update u f) s = exec f (u s)"
| "exec (Return r) s = (Some r, s)"
| "exec Panic s = (None, s)"

text \<open>
  A goroutine is a flow with its phase: \<open>Idle\<close> before its first access of the store,
  \<open>Reading\<close> once it has read, \<open>Writing\<close> once it has written, \<open>Finished\<close> when the
  handler has returned. A configuration holds the goroutines, the store, and the log:
  the goroutines in the order in which they committed, each at its first write, or at
  its return when it never wrote.
\<close>

datatype phase = Idle | Reading | Writing | Finished

type_synonym ('s, 'r) goroutine = "phase \<times> ('s, 'r) flow"

type_synonym ('s, 'r) config = "('s, 'r) goroutine list \<times> 's \<times> nat list"

definition start :: "('s, 'r) flow list \<Rightarrow> ('s, 'r) goroutine list" where
  "start fs = map (Pair Idle) fs"

text \<open>
  One step of a goroutine, and a run: the schedule names, step by step, the goroutine
  that takes the next step; a number that names no goroutine is skipped. The response
  of a goroutine is what its handler returned.
\<close>

fun advance :: "('s, 'r) goroutine \<Rightarrow> 's \<Rightarrow> ('s, 'r) goroutine \<times> 's" where
  "advance (Finished, f) s = ((Finished, f), s)"
| "advance (ph, Read h) s = ((if ph = Idle then Reading else ph, h s), s)"
| "advance (ph, Update u f) s = ((Writing, f), u s)"
| "advance (ph, Return r) s = ((Finished, Return r), s)"
| "advance (ph, Panic) s = ((Finished, Panic), s)"

fun commits :: "('s, 'r) goroutine \<Rightarrow> bool" where
  "commits (Idle, Read h) = False"
| "commits (Reading, Read h) = False"
| "commits (Idle, f) = True"
| "commits (Reading, f) = True"
| "commits (ph, f) = False"

fun run :: "nat list \<Rightarrow> ('s, 'r) config \<Rightarrow> ('s, 'r) config" where
  "run [] c = c"
| "run (k # schedule) (gs, s, log) =
     (if k < length gs
      then (case advance (gs ! k) s of
              (g, s') \<Rightarrow>
                run schedule (gs[k := g], s', if commits (gs ! k) then log @ [k] else log))
      else run schedule (gs, s, log))"

fun response :: "('s, 'r) goroutine \<Rightarrow> 'r option" where
  "response (Finished, Return r) = Some r"
| "response g = None"

text \<open>
  A schedule is isolated when every step is allowed where it is taken: a goroutine
  reads the store only while no other goroutine is \<open>Writing\<close>, and writes it only
  while every other goroutine is \<open>Idle\<close> or \<open>Finished\<close>. Returning is always allowed.
\<close>

definition others_all :: "nat \<Rightarrow> ('s, 'r) goroutine list \<Rightarrow> (phase \<Rightarrow> bool) \<Rightarrow> bool" where
  "others_all k gs P = list_all (\<lambda>j. j = k \<or> P (fst (gs ! j))) [0..<length gs]"

fun allowed :: "nat \<Rightarrow> ('s, 'r) goroutine list \<Rightarrow> ('s, 'r) goroutine \<Rightarrow> bool" where
  "allowed k gs (Finished, f) = True"
| "allowed k gs (ph, Read h) = others_all k gs (\<lambda>p. p \<noteq> Writing)"
| "allowed k gs (ph, Update u f) = others_all k gs (\<lambda>p. p = Idle \<or> p = Finished)"
| "allowed k gs (ph, f) = True"

fun isolated :: "nat list \<Rightarrow> ('s, 'r) config \<Rightarrow> bool" where
  "isolated [] c = True"
| "isolated (k # schedule) (gs, s, log) =
     (k < length gs \<and> allowed k gs (gs ! k) \<and>
      isolated schedule (run [k] (gs, s, log)))"

text \<open>
  Flows run one after the other, each from the store the one before left, and handlers
  applied to requests one after the other.
\<close>

fun serve :: "('s, 'r) flow list \<Rightarrow> 's \<Rightarrow> 'r option list \<times> 's" where
  "serve [] s = ([], s)"
| "serve (f # fs) s =
     (case exec f s of
        (r, s') \<Rightarrow> (case serve fs s' of (rs, s'') \<Rightarrow> (r # rs, s'')))"

fun serve_all :: "('q \<Rightarrow> 's \<Rightarrow> 'r \<times> 's) \<Rightarrow> 'q list \<Rightarrow> 's \<Rightarrow> 'r list \<times> 's" where
  "serve_all handler [] s = ([], s)"
| "serve_all handler (req # reqs) s =
     (case handler req s of
        (r, s') \<Rightarrow> (case serve_all handler reqs s' of (rs, s'') \<Rightarrow> (r # rs, s'')))"

text \<open>
  The serial schedule of an order of goroutines gives each of them \<open>n\<close> steps before the
  next one starts. \<open>within n f\<close>: the flow \<open>f\<close> has returned after \<open>n\<close> steps, whatever it
  reads. \<open>read_only f\<close>: the flow \<open>f\<close> never writes, whatever it reads.
\<close>

definition serial :: "nat \<Rightarrow> nat list \<Rightarrow> nat list" where
  "serial n order = concat (map (replicate n) order)"

fun within :: "nat \<Rightarrow> ('s, 'r) flow \<Rightarrow> bool" where
  "within 0 f = False"
| "within (Suc n) (Read h) = (\<forall>s. within n (h s))"
| "within (Suc n) (Update u f) = within n f"
| "within (Suc n) (Return r) = True"
| "within (Suc n) Panic = True"

primrec read_only :: "('s, 'r) flow \<Rightarrow> bool" where
  "read_only (Read h) = (\<forall>s. read_only (h s))"
| "read_only (Update u f) = False"
| "read_only (Return r) = True"
| "read_only Panic = True"

text \<open>
  What every isolated run keeps. An idle goroutine still has its whole flow; a reading
  one goes on, from the store as it is, as its whole flow would; at most one goroutine
  is writing, alone; and the flows of the log, run one after the other from the initial
  store, give the responses of the goroutines of the log and the store that remains
  once the writing goroutine is done.
\<close>

fun settled :: "('s, 'r) flow \<Rightarrow> bool" where
  "settled (Return r) = True"
| "settled Panic = True"
| "settled f = False"

definition writing :: "('s, 'r) goroutine list \<Rightarrow> nat \<Rightarrow> bool" where
  "writing gs k = (k < length gs \<and> fst (gs ! k) = Writing)"

definition run_inv :: "('s, 'r) flow list \<Rightarrow> 's \<Rightarrow> ('s, 'r) config \<Rightarrow> bool" where
  "run_inv fs s0 c = (case c of (gs, s, log) \<Rightarrow>
     length gs = length fs \<and> distinct log \<and> set log \<subseteq> {..<length fs} \<and>
     (\<forall>k < length fs.
        (fst (gs ! k) = Idle \<longrightarrow> snd (gs ! k) = fs ! k \<and> k \<notin> set log) \<and>
        (fst (gs ! k) = Reading \<longrightarrow>
           exec (snd (gs ! k)) s = exec (fs ! k) s \<and> k \<notin> set log \<and>
           (\<forall>j. \<not> writing gs j)) \<and>
        (fst (gs ! k) = Writing \<longrightarrow>
           k \<in> set log \<and>
           (\<forall>j < length fs. j \<noteq> k \<longrightarrow> fst (gs ! j) = Idle \<or> fst (gs ! j) = Finished)) \<and>
        (fst (gs ! k) = Finished \<longrightarrow> k \<in> set log \<and> settled (snd (gs ! k)))) \<and>
     (\<exists>v. serve (map ((!) fs) log) s0 = (map (\<lambda>k. fst (exec (snd (gs ! k)) s)) log, v) \<and>
          (\<forall>k. writing gs k \<longrightarrow> v = snd (exec (snd (gs ! k)) s)) \<and>
          ((\<forall>k. \<not> writing gs k) \<longrightarrow> v = s)))"

subsection \<open>The handlers of the todo service as flows\<close>

text \<open>
  \<open>todo_handler\<close> is the handler of a request as a function of the store;
  \<open>todo_flow\<close> is the same handler as its accesses of \<open>TODOS\<close>.
  \<^item> \<open>getTodos\<close> and \<open>getTodo\<close> range over \<open>TODOS\<close> and write the response.
  \<^item> \<open>addTodo\<close> binds the body first; \<open>TODOS = append(TODOS, newTodo)\<close> reads \<open>TODOS\<close>
    and assigns the appended slice.
  \<^item> \<open>updateTodoStatus\<close> finds the todo; \<open>todo.Completed = !todo.Completed\<close> negates
    the field through the pointer, in the element \<open>i\<close> of the store as it is then.
  \<^item> \<open>deleteTodo\<close> ranges over \<open>TODOS\<close>; \<open>TODOS = slices.Delete(TODOS, i, i+1)\<close> reads
    \<open>TODOS\<close> again, panics when \<open>i+1\<close> exceeds its length, and assigns the result.
  \<open>reads_todos\<close> holds of the requests whose handler never writes.
\<close>

datatype todo_request =
    GetTodos string string
  | AddTodo "string + Todo"
  | GetTodo string
  | UpdateTodoStatus string
  | DeleteTodo string

fun todo_handler ::
  "(string \<Rightarrow> string) \<Rightarrow> todo_request \<Rightarrow> Todo list \<Rightarrow> todo_response \<times> Todo list" where
  "todo_handler ToLower (GetTodos query status) = getTodos ToLower query status"
| "todo_handler ToLower (AddTodo body) = addTodo body"
| "todo_handler ToLower (GetTodo id') = getTodo id'"
| "todo_handler ToLower (UpdateTodoStatus id') = updateTodoStatus id'"
| "todo_handler ToLower (DeleteTodo id') = deleteTodo id'"

fun todo_flow :: "(string \<Rightarrow> string) \<Rightarrow> todo_request \<Rightarrow> (Todo list, todo_response) flow" where
  "todo_flow ToLower (GetTodos query status) =
     Read (\<lambda>TODOS. Return (200, TodoList (getTodos_loop ToLower query status TODOS [])))"
| "todo_flow ToLower (AddTodo body) =
     (case body of
        Inl err \<Rightarrow> Return (400, ErrorJSON err)
      | Inr newTodo \<Rightarrow>
          Read (\<lambda>TODOS. Update (\<lambda>_. TODOS @ [newTodo]) (Return (201, TodoJSON newTodo))))"
| "todo_flow ToLower (GetTodo id') =
     Read (\<lambda>TODOS.
       case getTodoById id' TODOS of
         None \<Rightarrow> Return (404, MessageJSON ''Todo not found'')
       | Some i \<Rightarrow> Return (200, TodoJSON (TODOS ! i)))"
| "todo_flow ToLower (UpdateTodoStatus id') =
     Read (\<lambda>TODOS.
       case getTodoById id' TODOS of
         None \<Rightarrow> Return (404, MessageJSON ''Todo not found'')
       | Some i \<Rightarrow>
           Update (\<lambda>current.
                     current[i := (current ! i)\<lparr>Completed := \<not> Completed (current ! i)\<rparr>])
             (Return (200, TodoJSON ((TODOS ! i)\<lparr>Completed := \<not> Completed (TODOS ! i)\<rparr>))))"
| "todo_flow ToLower (DeleteTodo id') =
     Read (\<lambda>TODOS.
       case deleteTodo_loop id' TODOS of
         Some i \<Rightarrow>
           Read (\<lambda>current.
             if i + 1 \<le> length current
             then Update (\<lambda>_. slices_Delete current i (i + 1))
                    (Return (200, MessageJSON ''Todo deleted''))
             else Panic)
       | None \<Rightarrow> Return (404, MessageJSON ''Todo not found''))"

fun reads_todos :: "todo_request \<Rightarrow> bool" where
  "reads_todos (GetTodos query status) = True"
| "reads_todos (GetTodo id') = True"
| "reads_todos req = False"

subsection \<open>The handlers of the book service as flows\<close>

text \<open>
  The standard library functions the book handlers call, as one parameter \<open>lib\<close>, and
  the handlers as functions (\<open>book_handler\<close>) and as flows (\<open>book_flow\<close>).
  \<^item> \<open>createBook\<close> parses and validates the body first; \<open>newBook.ID = nextID\<close> reads
    \<open>nextID\<close>; \<open>nextID++\<close> reads and assigns it; \<open>library = append(library, newBook)\<close>
    reads \<open>library\<close> and assigns the appended slice.
  \<^item> \<open>updateBook\<close> finds the index; \<open>library[index] = updates\<close> reads \<open>library\<close>, panics
    when the index is out of range, and writes the element.
  \<^item> \<open>toggleBookAvailability\<close> finds the book and the index;
    \<open>library[index].Available = !book.Available\<close> reads \<open>library\<close> and writes the
    field; the response reads \<open>library[index]\<close> once more.
  \<^item> \<open>deleteBook\<close> ranges over \<open>library\<close>; \<open>library = slices.Delete(library, i, i+1)\<close>
    reads \<open>library\<close> again and assigns the result.
  \<open>reads_books\<close> holds of the requests whose handler never writes, \<open>creates\<close> of the
  \<open>createBook\<close> requests.
\<close>

record stdlib =
  strings_ToLower :: "string \<Rightarrow> string"
  strings_EqualFold :: "string \<Rightarrow> string \<Rightarrow> bool"
  strconv_ParseBool :: "string \<Rightarrow> bool option"
  strconv_Atoi :: "string \<Rightarrow> go_int option"

definition ascii_stdlib :: stdlib where
  "ascii_stdlib =
     \<lparr>strings_ToLower = ascii_ToLower, strings_EqualFold = ascii_EqualFold,
      strconv_ParseBool = std_ParseBool, strconv_Atoi = digit_Atoi\<rparr>"

datatype book_request =
    GetAllBooks string string string
  | CreateBook "string + Book"
  | GetBook string
  | UpdateBook string "string + Book"
  | ToggleBookAvailability string
  | DeleteBook string

fun book_handler :: "stdlib \<Rightarrow> book_request \<Rightarrow> store \<Rightarrow> book_response \<times> store" where
  "book_handler lib (GetAllBooks search genre availableStr) =
     getAllBooks (strings_ToLower lib) (strings_EqualFold lib) (strconv_ParseBool lib) search genre availableStr"
| "book_handler lib (CreateBook body) = createBook body"
| "book_handler lib (GetBook idStr) = getBook (strconv_Atoi lib) idStr"
| "book_handler lib (UpdateBook idStr body) = updateBook (strconv_Atoi lib) idStr body"
| "book_handler lib (ToggleBookAvailability idStr) = toggleBookAvailability (strconv_Atoi lib) idStr"
| "book_handler lib (DeleteBook idStr) = deleteBook (strconv_Atoi lib) idStr"

fun book_flow :: "stdlib \<Rightarrow> book_request \<Rightarrow> (store, book_response) flow" where
  "book_flow lib (GetAllBooks search genre availableStr) =
     Read (\<lambda>s.
       let filtered = getAllBooks_loop (strings_ToLower lib) (strings_EqualFold lib) (strconv_ParseBool lib)
                        search genre availableStr (library s) []
       in Return (200, BookList filtered (length filtered)))"
| "book_flow lib (CreateBook body) =
     (case body of
        Inl err \<Rightarrow> Return (400, BookError ''Cannot parse JSON'' (Some err))
      | Inr newBook \<Rightarrow>
          if Title newBook = [] \<or> Author newBook = []
          then Return (400, BookError ''Title and Author are required'' None)
          else
            Read (\<lambda>s1.
              let newBook = newBook\<lparr>ID := nextID s1\<rparr>
              in Read (\<lambda>s2.
                   Update (\<lambda>current. current\<lparr>nextID := nextID s2 + 1\<rparr>)
                     (Read (\<lambda>s3.
                        Update (\<lambda>current. current\<lparr>library := library s3 @ [newBook]\<rparr>)
                          (Return (201, BookMessage ''Book added successfully''
                                          (Some newBook))))))))"
| "book_flow lib (GetBook idStr) =
     (case strconv_Atoi lib idStr of
        None \<Rightarrow> Return (400, BookError ''Invalid book ID'' None)
      | Some id' \<Rightarrow>
          Read (\<lambda>s.
            case findBookByID id' (library s) of
              None \<Rightarrow> Return (404, BookError ''Book not found'' None)
            | Some (book, index) \<Rightarrow> Return (200, BookJSON book)))"
| "book_flow lib (UpdateBook idStr body) =
     (case strconv_Atoi lib idStr of
        None \<Rightarrow> Return (400, BookError ''Invalid book ID'' None)
      | Some id' \<Rightarrow>
          Read (\<lambda>s.
            case findBookByID id' (library s) of
              None \<Rightarrow> Return (404, BookError ''Book not found'' None)
            | Some (book, index) \<Rightarrow>
                (case body of
                   Inl err \<Rightarrow> Return (400, BookError ''Cannot parse JSON'' (Some err))
                 | Inr updates \<Rightarrow>
                     (let updates = updates\<lparr>ID := id'\<rparr>
                      in Read (\<lambda>s2.
                           if index < length (library s2)
                           then Update
                                  (\<lambda>current.
                                     current\<lparr>library := (library current)[index := updates]\<rparr>)
                                  (Return (200, BookMessage ''Book updated successfully''
                                                  (Some updates)))
                           else Panic)))))"
| "book_flow lib (ToggleBookAvailability idStr) =
     (case strconv_Atoi lib idStr of
        None \<Rightarrow> Return (400, BookError ''Invalid book ID'' None)
      | Some id' \<Rightarrow>
          Read (\<lambda>s.
            case findBookByID id' (library s) of
              None \<Rightarrow> Return (404, BookError ''Book not found'' None)
            | Some (book, index) \<Rightarrow>
                Read (\<lambda>s2.
                  if index < length (library s2)
                  then Update
                         (\<lambda>current.
                            current\<lparr>library := (library current)
                              [index := (library current ! index)
                                 \<lparr>Available := \<not> Available book\<rparr>]\<rparr>)
                         (Read (\<lambda>s3.
                            if index < length (library s3)
                            then Return (200, BookMessage ''Book availability updated''
                                                (Some (library s3 ! index)))
                            else Panic))
                  else Panic)))"
| "book_flow lib (DeleteBook idStr) =
     (case strconv_Atoi lib idStr of
        None \<Rightarrow> Return (400, BookError ''Invalid book ID'' None)
      | Some id' \<Rightarrow>
          Read (\<lambda>s.
            case deleteBook_loop id' (library s) of
              Some i \<Rightarrow>
                Read (\<lambda>s2.
                  if i + 1 \<le> length (library s2)
                  then Update (\<lambda>current.
                                 current\<lparr>library := slices_Delete (library s2) i (i + 1)\<rparr>)
                         (Return (200, BookMessage ''Book deleted successfully'' None))
                  else Panic)
            | None \<Rightarrow> Return (404, BookError ''Book not found'' None)))"

fun reads_books :: "book_request \<Rightarrow> bool" where
  "reads_books (GetAllBooks search genre availableStr) = True"
| "reads_books (GetBook idStr) = True"
| "reads_books req = False"

fun creates :: "book_request \<Rightarrow> bool" where
  "creates (CreateBook body) = True"
| "creates req = False"

text \<open>The store after \<open>n\<close> \<open>createBook\<close> requests with the same body, one after the other.\<close>

fun createBooks :: "nat \<Rightarrow> Book \<Rightarrow> store \<Rightarrow> store" where
  "createBooks 0 newBook s = s"
| "createBooks (Suc n) newBook s = createBooks n newBook (snd (createBook (Inr newBook) s))"

subsection \<open>Requests and schedules to run the definitions on\<close>

text \<open>
  Three requests to each service, in a schedule where the list request overlaps the
  request that adds: the adding handler reads first, the list handler reads and
  returns, and only then the adding handler writes. And two reading requests to each
  service.
\<close>

definition water_plants :: Todo where
  "water_plants = \<lparr>Todo.ID = ''5'', Item = ''Water the plants'', Completed = False\<rparr>"

definition todo_requests :: "todo_request list" where
  "todo_requests = [AddTodo (Inr water_plants), GetTodos [] [], UpdateTodoStatus ''2'']"

definition todo_schedule :: "nat list" where
  "todo_schedule = [0, 1, 1, 0, 0, 2, 2, 2]"

definition todo_reads :: "todo_request list" where
  "todo_reads = [GetTodos ''go'' [], GetTodo ''3'']"

definition refactoring :: Book where
  "refactoring =
     \<lparr>ID = 0, Title = ''Refactoring'', Author = ''Martin Fowler'', Genre = ''Technology'',
      Pages = 448, Available = True, PublishedYear = 1999\<rparr>"

definition book_requests :: "book_request list" where
  "book_requests = [CreateBook (Inr refactoring), GetAllBooks [] [] [], DeleteBook ''2'']"

definition book_schedule :: "nat list" where
  "book_schedule = [0, 1, 1, 0, 0, 0, 0, 0, 2, 2, 2, 2]"

definition book_reads :: "book_request list" where
  "book_reads = [GetAllBooks ''go'' [] ''T'', GetBook ''1'']"

section \<open>Toggling a todo twice\<close>

lemma getTodoById_Some:
  "getTodoById id' TODOS = Some i \<Longrightarrow> i < length TODOS \<and> Todo.ID (TODOS ! i) = id'"
proof (induction TODOS arbitrary: i)
  case Nil
  then show ?case by simp
next
  case (Cons todo rest)
  then show ?case by (auto split: if_splits)
qed

lemma getTodoById_present:
  "id' \<in> Todo.ID ` set TODOS \<Longrightarrow> \<exists>i. getTodoById id' TODOS = Some i"
  by (induction TODOS) auto

lemma getTodoById_toggle:
  "getTodoById id' TODOS = Some i \<Longrightarrow>
   getTodoById id' (TODOS[i := (TODOS ! i)\<lparr>Completed := b\<rparr>]) = Some i"
proof (induction TODOS arbitrary: i)
  case Nil
  then show ?case by simp
next
  case (Cons todo rest)
  show ?case
  proof (cases "Todo.ID todo = id'")
    case True
    with Cons.prems show ?thesis by simp
  next
    case False
    with Cons.prems obtain j where j: "getTodoById id' rest = Some j" "i = Suc j"
      by auto
    from Cons.IH [OF j(1)] False j show ?thesis by simp
  qed
qed

lemma getTodoById_first:
  "getTodoById id' TODOS = Some i \<Longrightarrow> j < i \<Longrightarrow> Todo.ID (TODOS ! j) \<noteq> id'"
proof (induction TODOS arbitrary: i j)
  case Nil
  then show ?case by simp
next
  case (Cons todo rest)
  show ?case
  proof (cases "Todo.ID todo = id'")
    case True
    with Cons.prems show ?thesis by simp
  next
    case False
    with Cons.prems obtain i' where i': "getTodoById id' rest = Some i'" "i = Suc i'"
      by auto
    show ?thesis
    proof (cases j)
      case 0
      with False show ?thesis by simp
    next
      case (Suc j')
      with Cons.prems(2) i'(2) have "j' < i'" by simp
      from Cons.IH [OF i'(1) this] Suc show ?thesis by simp
    qed
  qed
qed

text \<open>
  C10. For every ID present in \<open>TODOS\<close>, \<open>updateTodoStatus\<close> answers 200 and changes the
  store at one index only: the index of the matched todo, which is the first todo of
  the store that carries the requested ID. Its \<open>Completed\<close> field is negated while its
  ID and Item stay; the IDs and Items of the whole store are those of before; and
  applying \<open>updateTodoStatus\<close> to the same ID a second time gives back the original
  store.
\<close>

theorem updateTodoStatus_twice_restores:
  assumes "id' \<in> Todo.ID ` set TODOS"
  shows "\<exists>i. getTodoById id' TODOS = Some i \<and> i < length TODOS \<and>
           Todo.ID (TODOS ! i) = id' \<and>
           (\<forall>j < i. Todo.ID (TODOS ! j) \<noteq> id') \<and>
           updateTodoStatus id' TODOS =
             ((200, TodoJSON ((TODOS ! i)\<lparr>Completed := \<not> Completed (TODOS ! i)\<rparr>)),
              TODOS[i := (TODOS ! i)\<lparr>Completed := \<not> Completed (TODOS ! i)\<rparr>]) \<and>
           map Todo.ID (snd (updateTodoStatus id' TODOS)) = map Todo.ID TODOS \<and>
           map Item (snd (updateTodoStatus id' TODOS)) = map Item TODOS \<and>
           snd (updateTodoStatus id' (snd (updateTodoStatus id' TODOS))) = TODOS"
proof -
  from assms obtain i where i: "getTodoById id' TODOS = Some i"
    using getTodoById_present by blast
  then have len: "i < length TODOS" and match: "Todo.ID (TODOS ! i) = id'"
    using getTodoById_Some by blast+
  have first: "\<forall>j < i. Todo.ID (TODOS ! j) \<noteq> id'"
    using getTodoById_first [OF i] by blast
  define todo where "todo = (TODOS ! i)\<lparr>Completed := \<not> Completed (TODOS ! i)\<rparr>"
  have once: "updateTodoStatus id' TODOS = ((200, TodoJSON todo), TODOS[i := todo])"
    using i by (simp add: updateTodoStatus_def todo_def Let_def)
  have again: "getTodoById id' (TODOS[i := todo]) = Some i"
    unfolding todo_def using i by (rule getTodoById_toggle)
  have undo: "(TODOS[i := todo])[i := ((TODOS[i := todo]) ! i)
                \<lparr>Completed := \<not> Completed ((TODOS[i := todo]) ! i)\<rparr>] = TODOS"
    using len by (simp add: todo_def list_update_same_conv)
  have twice: "snd (updateTodoStatus id' (TODOS[i := todo])) = TODOS"
    using again undo by (simp add: updateTodoStatus_def Let_def)
  have ids: "map Todo.ID (TODOS[i := todo]) = map Todo.ID TODOS"
    using len by (simp add: todo_def map_update list_update_same_conv)
  have items: "map Item (TODOS[i := todo]) = map Item TODOS"
    using len by (simp add: todo_def map_update list_update_same_conv)
  show ?thesis
    using i len match first once twice ids items by (simp add: todo_def)
qed

text \<open>
  A store in which the requested ID occurs twice, after other todos: the request for
  \<open>4\<close> toggles the first todo with that ID, at index 3, and no other.
\<close>

theorem updateTodoStatus_twice_restores_witness:
  "getTodoById ''4''
     (TODOS_init @ [\<lparr>Todo.ID = ''4'', Item = ''Call home'', Completed = True\<rparr>]) = Some 3 \<and>
   snd (updateTodoStatus ''4''
     (TODOS_init @ [\<lparr>Todo.ID = ''4'', Item = ''Call home'', Completed = True\<rparr>])) =
     (TODOS_init @ [\<lparr>Todo.ID = ''4'', Item = ''Call home'', Completed = True\<rparr>])
       [3 := \<lparr>Todo.ID = ''4'', Item = ''Go for a walk'', Completed = True\<rparr>] \<and>
   snd (updateTodoStatus ''4'' (snd (updateTodoStatus ''4''
     (TODOS_init @ [\<lparr>Todo.ID = ''4'', Item = ''Call home'', Completed = True\<rparr>])))) =
     TODOS_init @ [\<lparr>Todo.ID = ''4'', Item = ''Call home'', Completed = True\<rparr>]"
proof -
  define T where
    "T = TODOS_init @ [\<lparr>Todo.ID = ''4'', Item = ''Call home'', Completed = True\<rparr>]"
  have present: "''4'' \<in> Todo.ID ` set T"
    by (simp add: T_def TODOS_init_def)
  have found: "getTodoById ''4'' T = Some 3"
    by (simp add: T_def TODOS_init_def)
  have toggled: "T[3 := (T ! 3)\<lparr>Completed := \<not> Completed (T ! 3)\<rparr>] =
      T[3 := \<lparr>Todo.ID = ''4'', Item = ''Go for a walk'', Completed = True\<rparr>]"
    by (simp add: T_def TODOS_init_def)
  from updateTodoStatus_twice_restores [OF present] found
  have "snd (updateTodoStatus ''4'' T) =
          T[3 := (T ! 3)\<lparr>Completed := \<not> Completed (T ! 3)\<rparr>] \<and>
        snd (updateTodoStatus ''4'' (snd (updateTodoStatus ''4'' T))) = T"
    by auto
  with found show ?thesis
    unfolding toggled unfolding T_def by blast
qed

section \<open>The list endpoints as filters\<close>

lemma getTodos_loop_filter:
  "getTodos_loop ToLower query status TODOS filtered =
     filtered @ filter (todo_satisfies ToLower query status) TODOS"
proof (induction TODOS arbitrary: filtered)
  case Nil
  show ?case by simp
next
  case (Cons todo rest)
  show ?case
  proof (cases "todo_satisfies ToLower query status todo")
    case True
    then have "getTodos_loop ToLower query status (todo # rest) filtered =
               getTodos_loop ToLower query status rest (filtered @ [todo])"
      by (auto simp: todo_satisfies_def)
    with True show ?thesis by (simp add: Cons.IH)
  next
    case False
    then have "getTodos_loop ToLower query status (todo # rest) filtered =
               getTodos_loop ToLower query status rest filtered"
      by (auto simp: todo_satisfies_def)
    with False show ?thesis by (simp add: Cons.IH)
  qed
qed

lemma getAllBooks_loop_filter:
  "getAllBooks_loop ToLower EqualFold ParseBool search genre availableStr books filtered =
     filtered @
     filter (book_satisfies ToLower EqualFold ParseBool search genre availableStr) books"
proof (induction books arbitrary: filtered)
  case Nil
  show ?case by simp
next
  case (Cons book rest)
  show ?case
  proof (cases "book_satisfies ToLower EqualFold ParseBool search genre availableStr book")
    case True
    then have "getAllBooks_loop ToLower EqualFold ParseBool search genre availableStr
                 (book # rest) filtered =
               getAllBooks_loop ToLower EqualFold ParseBool search genre availableStr
                 rest (filtered @ [book])"
      by (auto simp: book_satisfies_def bookMatchesSearch_def split: option.splits)
    with True show ?thesis by (simp add: Cons.IH)
  next
    case False
    then have "getAllBooks_loop ToLower EqualFold ParseBool search genre availableStr
                 (book # rest) filtered =
               getAllBooks_loop ToLower EqualFold ParseBool search genre availableStr
                 rest filtered"
      by (auto simp: book_satisfies_def bookMatchesSearch_def split: option.splits)
    with False show ?thesis by (simp add: Cons.IH)
  qed
qed

text \<open>
  C8. For every store and every combination of filter parameters, \<open>getTodos\<close> and
  \<open>getAllBooks\<close> answer 200 with exactly the elements of the store that satisfy all
  the filters given, in stored order (\<open>filter\<close> keeps the order of the store), the book
  endpoint with their number as total, and both leave the store as it was. A filter is
  given when the code takes it as given: a non-empty query, search term or genre, a
  status that is \<open>true\<close> or \<open>false\<close>, an availability that \<open>ParseBool\<close> accepts.
\<close>

theorem list_endpoints_filter:
  "getTodos ToLower query status TODOS =
     ((200, TodoList (filter (todo_satisfies ToLower query status) TODOS)), TODOS) \<and>
   getAllBooks ToLower EqualFold ParseBool search genre availableStr s =
     ((200,
       BookList
         (filter (book_satisfies ToLower EqualFold ParseBool search genre availableStr)
            (library s))
         (length
            (filter (book_satisfies ToLower EqualFold ParseBool search genre availableStr)
               (library s)))),
      s)"
  by (simp add: getTodos_def getAllBooks_def getTodos_loop_filter getAllBooks_loop_filter
        Let_def)

theorem list_endpoints_filter_witness:
  "getTodos ascii_ToLower ''BOOK'' ''true''
     (TODOS_init[1 := \<lparr>Todo.ID = ''2'', Item = ''Read a book'', Completed = True\<rparr>]) =
     ((200, TodoList [\<lparr>Todo.ID = ''2'', Item = ''Read a book'', Completed = True\<rparr>]),
      TODOS_init[1 := \<lparr>Todo.ID = ''2'', Item = ''Read a book'', Completed = True\<rparr>]) \<and>
   getAllBooks ascii_ToLower ascii_EqualFold std_ParseBool ''go'' ''technology'' ''T''
     store_init =
     ((200, BookList [library store_init ! 0] 1), store_init)"
proof -
  have todos:
    "filter (todo_satisfies ascii_ToLower ''BOOK'' ''true'')
       (TODOS_init[1 := \<lparr>Todo.ID = ''2'', Item = ''Read a book'', Completed = True\<rparr>]) =
     [\<lparr>Todo.ID = ''2'', Item = ''Read a book'', Completed = True\<rparr>]"
    by code_simp
  have books:
    "filter (book_satisfies ascii_ToLower ascii_EqualFold std_ParseBool
               ''go'' ''technology'' ''T'') (library store_init) =
     [library store_init ! 0]"
    by code_simp
  have len: "length [library store_init ! 0] = 1"
    by simp
  have t: "getTodos ascii_ToLower ''BOOK'' ''true''
       (TODOS_init[1 := \<lparr>Todo.ID = ''2'', Item = ''Read a book'', Completed = True\<rparr>]) =
     ((200, TodoList (filter (todo_satisfies ascii_ToLower ''BOOK'' ''true'')
         (TODOS_init[1 := \<lparr>Todo.ID = ''2'', Item = ''Read a book'', Completed = True\<rparr>]))),
      TODOS_init[1 := \<lparr>Todo.ID = ''2'', Item = ''Read a book'', Completed = True\<rparr>])"
    by (rule list_endpoints_filter [THEN conjunct1])
  have b: "getAllBooks ascii_ToLower ascii_EqualFold std_ParseBool ''go'' ''technology'' ''T''
       store_init =
     ((200,
       BookList
         (filter (book_satisfies ascii_ToLower ascii_EqualFold std_ParseBool
                    ''go'' ''technology'' ''T'') (library store_init))
         (length
            (filter (book_satisfies ascii_ToLower ascii_EqualFold std_ParseBool
                       ''go'' ''technology'' ''T'') (library store_init)))),
      store_init)"
    by (rule list_endpoints_filter [THEN conjunct2])
  show ?thesis
    unfolding t b todos books len by (rule conjI) (rule refl)+
qed

section \<open>Distinct book IDs\<close>

lemma sint_succ_go_int:
  fixes n :: go_int
  assumes "n \<noteq> max_go_int"
  shows "sint (n + 1) = sint n + 1"
proof -
  have "sint max_go_int = 9223372036854775807"
    by (simp add: max_go_int_def)
  with assms have "sint n \<noteq> 9223372036854775807"
    by (metis signed_word_eqI)
  moreover have "sint n < 2 ^ (LENGTH(64) - 1)"
    by (rule sint_lt)
  moreover have "- (2 ^ (LENGTH(64) - 1)) \<le> sint n"
    by (rule sint_ge)
  ultimately have "- (2 ^ 63) \<le> sint n + 1" "sint n + 1 < 2 ^ 63"
    by simp_all
  then have "signed_take_bit 63 (sint n + 1) = sint n + 1"
    by (simp add: signed_take_bit_int_eq_self)
  then show ?thesis
    by (simp add: sint_word_add)
qed

lemma nextID_succ_above:
  fixes n :: go_int
  assumes "n \<noteq> max_go_int"
  shows "n <s n + 1" and "a <s n \<Longrightarrow> a <s n + 1"
  using sint_succ_go_int [OF assms] by (simp_all add: word_sless_alt)

lemma findBookByID_Some:
  "findBookByID id' books = Some (book, index) \<Longrightarrow>
   index < length books \<and> books ! index = book \<and> Book.ID book = id'"
proof (induction books arbitrary: index)
  case Nil
  then show ?case by simp
next
  case (Cons b rest)
  then show ?case by (auto split: if_splits)
qed

lemma deleteBook_loop_Some:
  "deleteBook_loop id' books = Some i \<Longrightarrow> i < length books \<and> Book.ID (books ! i) = id'"
proof (induction books arbitrary: i)
  case Nil
  then show ?case by simp
next
  case (Cons b rest)
  then show ?case by (auto split: if_splits)
qed

lemma map_ID_update:
  "index < length books \<Longrightarrow> Book.ID (books ! index) = Book.ID b \<Longrightarrow>
   map Book.ID (books[index := b]) = map Book.ID books"
  by (simp add: map_update list_update_same_conv)

lemma distinct_slices_Delete:
  "distinct (map f xs) \<Longrightarrow> distinct (map f (slices_Delete xs i (Suc i)))"
proof -
  assume d: "distinct (map f xs)"
  have "map f (slices_Delete xs i (Suc i)) = take i (map f xs) @ drop (Suc i) (map f xs)"
    by (simp add: slices_Delete_def take_map drop_map)
  moreover have "set (take i (map f xs)) \<inter> set (drop (Suc i) (map f xs)) = {}"
    using d by (rule set_take_disj_set_drop_if_distinct) simp
  then have "distinct (take i (map f xs) @ drop (Suc i) (map f xs))"
    using d by simp
  ultimately show ?thesis by simp
qed

lemma set_slices_Delete: "set (slices_Delete xs i (Suc i)) \<subseteq> set xs"
  by (auto simp: slices_Delete_def dest: in_set_takeD in_set_dropD)

lemma createBook_inv:
  assumes "ids_distinct s" "nextID_above s" "nextID s \<noteq> max_go_int"
  shows "ids_distinct (snd (createBook body s)) \<and> nextID_above (snd (createBook body s))"
proof (cases body)
  case (Inl err)
  with assms show ?thesis by (simp add: createBook_def)
next
  case (Inr newBook)
  have fresh: "nextID s \<notin> Book.ID ` set (library s)"
    using assms(2) by (auto simp: nextID_above_def list_all_iff)
  have above: "list_all (\<lambda>book. Book.ID book <s nextID s + 1) (library s)"
    using assms(2) nextID_succ_above(2) [OF assms(3)]
    by (simp add: nextID_above_def list_all_iff)
  show ?thesis
    using Inr assms(1,2) fresh above nextID_succ_above(1) [OF assms(3)]
    by (simp add: createBook_def ids_distinct_def nextID_above_def Let_def)
qed

lemma updateBook_ids:
  "map Book.ID (library (snd (updateBook Atoi idStr body s))) = map Book.ID (library s) \<and>
   nextID (snd (updateBook Atoi idStr body s)) = nextID s"
  by (auto simp: updateBook_def Let_def map_ID_update
      split: option.splits sum.splits prod.splits dest!: findBookByID_Some)

lemma toggleBookAvailability_ids:
  "map Book.ID (library (snd (toggleBookAvailability Atoi idStr s))) = map Book.ID (library s) \<and>
   nextID (snd (toggleBookAvailability Atoi idStr s)) = nextID s"
  by (auto simp: toggleBookAvailability_def Let_def map_ID_update
      split: option.splits prod.splits dest!: findBookByID_Some)

lemma deleteBook_removes:
  "nextID (snd (deleteBook Atoi idStr s)) = nextID s \<and>
   (library (snd (deleteBook Atoi idStr s)) = library s \<or>
    (\<exists>i < length (library s).
       library (snd (deleteBook Atoi idStr s)) = take i (library s) @ drop (Suc i) (library s)))"
  by (auto simp: deleteBook_def slices_Delete_def split: option.splits
      dest!: deleteBook_loop_Some)

lemma deleteBook_inv:
  assumes "ids_distinct s" "nextID_above s"
  shows "ids_distinct (snd (deleteBook Atoi idStr s)) \<and> nextID_above (snd (deleteBook Atoi idStr s))"
  using assms set_slices_Delete [of "library s"]
  by (auto simp: deleteBook_def ids_distinct_def nextID_above_def list_all_iff
      distinct_slices_Delete split: option.splits)

lemma inv_from_ids:
  assumes "ids_distinct s" "nextID_above s"
    and "map Book.ID (library s') = map Book.ID (library s)" "nextID s' = nextID s"
  shows "ids_distinct s' \<and> nextID_above s'"
proof -
  have "nextID_above t = list_all (\<lambda>i. i <s nextID t) (map Book.ID (library t))" for t
    by (simp add: nextID_above_def list_all_iff)
  with assms show ?thesis
    by (simp add: ids_distinct_def)
qed

lemma createBook_distinct:
  assumes "ids_distinct s" "nextID_above s"
  shows "ids_distinct (snd (createBook body s))"
proof (cases body)
  case (Inl err)
  with assms show ?thesis by (simp add: createBook_def)
next
  case (Inr newBook)
  have fresh: "nextID s \<notin> Book.ID ` set (library s)"
    using assms(2) by (auto simp: nextID_above_def list_all_iff)
  show ?thesis
    using Inr assms(1) fresh
    by (simp add: createBook_def ids_distinct_def Let_def)
qed

lemma createBook_nextID:
  "nextID (snd (createBook body s)) = nextID s \<or>
   nextID (snd (createBook body s)) = nextID s + 1"
  by (cases body) (simp_all add: createBook_def Let_def)

lemma sint_go_int_less:
  fixes n :: go_int
  assumes "sint n + 1 < 2 ^ 63"
  shows "n \<noteq> max_go_int"
  using assms by (auto simp: max_go_int_def)

section \<open>Isolated schedules are serial\<close>

lemma others_all_iff:
  "others_all k gs P \<longleftrightarrow> (\<forall>j < length gs. j \<noteq> k \<longrightarrow> P (fst (gs ! j)))"
  by (auto simp: others_all_def list_all_iff)

lemma serve_snoc:
  "serve (fs @ [f]) s =
     (fst (serve fs s) @ [fst (exec f (snd (serve fs s)))], snd (exec f (snd (serve fs s))))"
  by (induction fs arbitrary: s) (auto split: prod.split)

lemma run_append: "run (xs @ ys) c = run ys (run xs c)"
proof (induction xs arbitrary: c)
  case Nil
  show ?case by simp
next
  case (Cons k xs)
  obtain gs s log where c: "c = (gs, s, log)" by (cases c)
  show ?case unfolding c by (simp add: Cons.IH split: prod.split)
qed

lemma settled_exec: "settled f \<Longrightarrow> exec f x = (fst (exec f y), x)"
  by (cases f) simp_all

lemma run_inv_start: "run_inv fs s0 (start fs, s0, [])"
  by (auto simp: run_inv_def start_def writing_def)

lemma run_inv_step_finished:
  assumes "run_inv fs s0 (gs, s, log)" "k < length gs" "fst (gs ! k) = Finished"
  shows "run_inv fs s0 (run [k] (gs, s, log))"
proof -
  obtain f where g: "gs ! k = (Finished, f)"
    using assms(3) by (cases "gs ! k") simp
  have "gs[k := (Finished, f)] = gs"
    using g by (metis list_update_id)
  then have "run [k] (gs, s, log) = (gs, s, log)"
    using assms(2) g by simp
  with assms(1) show ?thesis by simp
qed

lemma run_inv_step_read:
  assumes I: "run_inv fs s0 (gs, s, log)" and k: "k < length gs"
    and g: "gs ! k = (ph, Read h)" and ph: "ph \<noteq> Finished"
    and A: "allowed k gs (gs ! k)"
  shows "run_inv fs s0 (run [k] (gs, s, log))"
proof -
  define ph' where "ph' = (if ph = Idle then Reading else ph)"
  define gs' where "gs' = gs[k := (ph', h s)]"
  have run: "run [k] (gs, s, log) = (gs', s, log)"
    using k g ph by (cases ph) (simp_all add: gs'_def ph'_def)
  have oth: "\<forall>j < length gs. j \<noteq> k \<longrightarrow> fst (gs ! j) \<noteq> Writing"
    using A g ph by (cases ph) (simp_all add: others_all_iff)
  have len: "length gs = length fs" "length gs' = length fs"
    using I by (simp_all add: run_inv_def gs'_def)
  have nk: "gs' ! k = (ph', h s)"
    using k by (simp add: gs'_def)
  have nj: "gs' ! j = gs ! j" if "j \<noteq> k" for j
    using that by (simp add: gs'_def)
  have wph: "ph' = Writing \<longleftrightarrow> ph = Writing"
    by (simp add: ph'_def)
  have wr: "writing gs' j \<longleftrightarrow> writing gs j" for j
    using nk nj [of j] g wph len by (cases "j = k") (auto simp: writing_def)
  have ex: "exec (snd (gs' ! j)) s = exec (snd (gs ! j)) s" for j
    using nk nj [of j] g by (cases "j = k") simp_all
  have D: "distinct log" "set log \<subseteq> {..<length fs}"
    using I by (simp_all add: run_inv_def)
  from I obtain v where
    v: "serve (map ((!) fs) log) s0 = (map (\<lambda>k. fst (exec (snd (gs ! k)) s)) log, v)"
       "\<forall>k. writing gs k \<longrightarrow> v = snd (exec (snd (gs ! k)) s)"
       "(\<forall>k. \<not> writing gs k) \<longrightarrow> v = s"
    unfolding run_inv_def by auto
  have P: "\<forall>j < length fs.
        (fst (gs ! j) = Idle \<longrightarrow> snd (gs ! j) = fs ! j \<and> j \<notin> set log) \<and>
        (fst (gs ! j) = Reading \<longrightarrow>
           exec (snd (gs ! j)) s = exec (fs ! j) s \<and> j \<notin> set log \<and>
           (\<forall>i. \<not> writing gs i)) \<and>
        (fst (gs ! j) = Writing \<longrightarrow>
           j \<in> set log \<and>
           (\<forall>i < length fs. i \<noteq> j \<longrightarrow> fst (gs ! i) = Idle \<or> fst (gs ! i) = Finished)) \<and>
        (fst (gs ! j) = Finished \<longrightarrow> j \<in> set log \<and> settled (snd (gs ! j)))"
    using I unfolding run_inv_def by simp
  have P': "(fst (gs' ! j) = Idle \<longrightarrow> snd (gs' ! j) = fs ! j \<and> j \<notin> set log) \<and>
        (fst (gs' ! j) = Reading \<longrightarrow>
           exec (snd (gs' ! j)) s = exec (fs ! j) s \<and> j \<notin> set log \<and>
           (\<forall>i. \<not> writing gs' i)) \<and>
        (fst (gs' ! j) = Writing \<longrightarrow>
           j \<in> set log \<and>
           (\<forall>i < length fs. i \<noteq> j \<longrightarrow> fst (gs' ! i) = Idle \<or> fst (gs' ! i) = Finished)) \<and>
        (fst (gs' ! j) = Finished \<longrightarrow> j \<in> set log \<and> settled (snd (gs' ! j)))"
    if j: "j < length fs" for j
  proof (cases "j = k")
    case True
    have nw: "ph \<noteq> Writing \<Longrightarrow> \<not> writing gs i" for i
      using oth g len by (cases "i = k") (auto simp: writing_def)
    have "k < length fs" using j True by simp
    from P [rule_format, OF this] g have Pk:
      "ph = Idle \<longrightarrow> fs ! k = Read h \<and> k \<notin> set log"
      "ph = Reading \<longrightarrow> exec (Read h) s = exec (fs ! k) s \<and> k \<notin> set log"
      "ph = Writing \<longrightarrow> k \<in> set log \<and>
          (\<forall>i < length fs. i \<noteq> k \<longrightarrow> fst (gs ! i) = Idle \<or> fst (gs ! i) = Finished)"
      by auto
    show ?thesis
      using True nk Pk ph nw nj unfolding wr
      by (cases ph) (auto simp: ph'_def)
  next
    case False
    have "fst (gs ! j) \<noteq> Writing"
      using oth False j len by simp
    then show ?thesis
      using False nj [OF False] P j ex [of j] unfolding wr by auto
  qed
  have S: "serve (map ((!) fs) log) s0 = (map (\<lambda>k. fst (exec (snd (gs' ! k)) s)) log, v)"
    using v(1) by (simp add: ex)
  show ?thesis
    unfolding run run_inv_def using len D P' S v(2,3) by (auto simp: wr ex)
qed

lemma run_inv_step_update:
  assumes I: "run_inv fs s0 (gs, s, log)" and k: "k < length gs"
    and g: "gs ! k = (ph, Update u f)" and ph: "ph \<noteq> Finished"
    and A: "allowed k gs (gs ! k)"
  shows "run_inv fs s0 (run [k] (gs, s, log))"
proof -
  define gs' where "gs' = gs[k := (Writing, f)]"
  define log' where "log' = (if ph = Writing then log else log @ [k])"
  have run: "run [k] (gs, s, log) = (gs', u s, log')"
    using k g ph by (cases ph) (simp_all add: gs'_def log'_def)
  have oth: "\<forall>j < length gs. j \<noteq> k \<longrightarrow> fst (gs ! j) = Idle \<or> fst (gs ! j) = Finished"
    using A g ph by (cases ph) (simp_all add: others_all_iff)
  have len: "length gs = length fs" "length gs' = length fs"
    using I by (simp_all add: run_inv_def gs'_def)
  have kf: "k < length fs"
    using k len by simp
  have nk: "gs' ! k = (Writing, f)"
    using k by (simp add: gs'_def)
  have nj: "gs' ! j = gs ! j" if "j \<noteq> k" for j
    using that by (simp add: gs'_def)
  have wr': "writing gs' j \<longleftrightarrow> j = k" for j
  proof (cases "j = k")
    case True
    then show ?thesis using nk kf len by (simp add: writing_def)
  next
    case False
    then show ?thesis using nj [OF False] oth len by (auto simp: writing_def)
  qed
  have D: "distinct log" "set log \<subseteq> {..<length fs}"
    using I by (simp_all add: run_inv_def)
  from I obtain v where
    v: "serve (map ((!) fs) log) s0 = (map (\<lambda>k. fst (exec (snd (gs ! k)) s)) log, v)"
       "\<forall>k. writing gs k \<longrightarrow> v = snd (exec (snd (gs ! k)) s)"
       "(\<forall>k. \<not> writing gs k) \<longrightarrow> v = s"
    unfolding run_inv_def by auto
  have P: "\<forall>j < length fs.
        (fst (gs ! j) = Idle \<longrightarrow> snd (gs ! j) = fs ! j \<and> j \<notin> set log) \<and>
        (fst (gs ! j) = Reading \<longrightarrow>
           exec (snd (gs ! j)) s = exec (fs ! j) s \<and> j \<notin> set log \<and>
           (\<forall>i. \<not> writing gs i)) \<and>
        (fst (gs ! j) = Writing \<longrightarrow>
           j \<in> set log \<and>
           (\<forall>i < length fs. i \<noteq> j \<longrightarrow> fst (gs ! i) = Idle \<or> fst (gs ! i) = Finished)) \<and>
        (fst (gs ! j) = Finished \<longrightarrow> j \<in> set log \<and> settled (snd (gs ! j)))"
    using I unfolding run_inv_def by simp
  from P [rule_format, OF kf] g have Pk:
    "ph = Idle \<longrightarrow> fs ! k = Update u f \<and> k \<notin> set log"
    "ph = Reading \<longrightarrow> exec (fs ! k) s = exec f (u s) \<and> k \<notin> set log"
    "ph = Writing \<longrightarrow> k \<in> set log"
    by auto
  have fin: "fst (gs ! j) = Finished \<and> settled (snd (gs ! j))"
    if "j \<in> set log" "j \<noteq> k" for j
  proof -
    have j: "j < length fs" using that(1) D(2) by auto
    with oth that(2) len have "fst (gs ! j) = Idle \<or> fst (gs ! j) = Finished" by simp
    with P [rule_format, OF j] that(1) show ?thesis by auto
  qed
  have R: "fst (exec (snd (gs' ! j)) (u s)) = fst (exec (snd (gs ! j)) s)"
    if "j \<in> set log" for j
  proof (cases "j = k")
    case True
    then show ?thesis using nk g by simp
  next
    case False
    from fin [OF that False] settled_exec [of "snd (gs ! j)" "u s" s]
    show ?thesis using nj [OF False] by simp
  qed
  have S: "serve (map ((!) fs) log') s0 =
           (map (\<lambda>j. fst (exec (snd (gs' ! j)) (u s))) log', snd (exec f (u s)))"
  proof (cases "ph = Writing")
    case True
    then have "writing gs k" using g kf len by (simp add: writing_def)
    with v(2) g have "v = snd (exec f (u s))" by simp
    moreover have "map (\<lambda>j. fst (exec (snd (gs' ! j)) (u s))) log =
                   map (\<lambda>j. fst (exec (snd (gs ! j)) s)) log"
      using R by simp
    ultimately show ?thesis using v(1) True by (simp add: log'_def)
  next
    case False
    have nw: "\<not> writing gs i" for i
      using oth g False len by (cases "i = k") (auto simp: writing_def)
    with v(3) have vs: "v = s" by simp
    from False ph Pk have ek: "exec (fs ! k) s = exec f (u s)" "k \<notin> set log"
      by (cases ph; simp)+
    have "map (\<lambda>j. fst (exec (snd (gs' ! j)) (u s))) log =
          map (\<lambda>j. fst (exec (snd (gs ! j)) s)) log"
      using R by simp
    then show ?thesis
      using v(1) vs ek False nk by (simp add: log'_def serve_snoc)
  qed
  have L: "distinct log'" "set log' \<subseteq> {..<length fs}" "k \<in> set log'"
    "\<And>j. j \<noteq> k \<Longrightarrow> j \<in> set log' \<longleftrightarrow> j \<in> set log"
    using D Pk ph kf by (cases ph; auto simp: log'_def)+
  have P': "(fst (gs' ! j) = Idle \<longrightarrow> snd (gs' ! j) = fs ! j \<and> j \<notin> set log') \<and>
        (fst (gs' ! j) = Reading \<longrightarrow>
           exec (snd (gs' ! j)) (u s) = exec (fs ! j) (u s) \<and> j \<notin> set log' \<and>
           (\<forall>i. \<not> writing gs' i)) \<and>
        (fst (gs' ! j) = Writing \<longrightarrow>
           j \<in> set log' \<and>
           (\<forall>i < length fs. i \<noteq> j \<longrightarrow> fst (gs' ! i) = Idle \<or> fst (gs' ! i) = Finished)) \<and>
        (fst (gs' ! j) = Finished \<longrightarrow> j \<in> set log' \<and> settled (snd (gs' ! j)))"
    if j: "j < length fs" for j
  proof (cases "j = k")
    case True
    then show ?thesis
      using nk L(3) oth nj len by auto
  next
    case False
    from oth False j len have "fst (gs ! j) = Idle \<or> fst (gs ! j) = Finished" by simp
    then show ?thesis
      using False nj [OF False] P [rule_format, OF j] L(4) [OF False] by auto
  qed
  show ?thesis
    unfolding run run_inv_def using len L(1,2) P' S by (auto simp: wr' nk)
qed

lemma run_inv_step_settled:
  assumes I: "run_inv fs s0 (gs, s, log)" and k: "k < length gs"
    and g: "gs ! k = (ph, f)" and f: "settled f" and ph: "ph \<noteq> Finished"
  shows "run_inv fs s0 (run [k] (gs, s, log))"
proof -
  define gs' where "gs' = gs[k := (Finished, f)]"
  define log' where "log' = (if ph = Writing then log else log @ [k])"
  have run: "run [k] (gs, s, log) = (gs', s, log')"
    using k g ph f by (cases ph; cases f) (simp_all add: gs'_def log'_def)
  have len: "length gs = length fs" "length gs' = length fs"
    using I by (simp_all add: run_inv_def gs'_def)
  have kf: "k < length fs"
    using k len by simp
  have nk: "gs' ! k = (Finished, f)"
    using k by (simp add: gs'_def)
  have nj: "gs' ! j = gs ! j" if "j \<noteq> k" for j
    using that by (simp add: gs'_def)
  have wr: "writing gs' j \<longleftrightarrow> writing gs j \<and> j \<noteq> k" for j
    using nk nj [of j] len by (cases "j = k") (auto simp: writing_def)
  have ex: "exec (snd (gs' ! j)) x = exec (snd (gs ! j)) x" for j x
    using nk nj [of j] g by (cases "j = k") simp_all
  have D: "distinct log" "set log \<subseteq> {..<length fs}"
    using I by (simp_all add: run_inv_def)
  from I obtain v where
    v: "serve (map ((!) fs) log) s0 = (map (\<lambda>k. fst (exec (snd (gs ! k)) s)) log, v)"
       "\<forall>k. writing gs k \<longrightarrow> v = snd (exec (snd (gs ! k)) s)"
       "(\<forall>k. \<not> writing gs k) \<longrightarrow> v = s"
    unfolding run_inv_def by auto
  have P: "\<forall>j < length fs.
        (fst (gs ! j) = Idle \<longrightarrow> snd (gs ! j) = fs ! j \<and> j \<notin> set log) \<and>
        (fst (gs ! j) = Reading \<longrightarrow>
           exec (snd (gs ! j)) s = exec (fs ! j) s \<and> j \<notin> set log \<and>
           (\<forall>i. \<not> writing gs i)) \<and>
        (fst (gs ! j) = Writing \<longrightarrow>
           j \<in> set log \<and>
           (\<forall>i < length fs. i \<noteq> j \<longrightarrow> fst (gs ! i) = Idle \<or> fst (gs ! i) = Finished)) \<and>
        (fst (gs ! j) = Finished \<longrightarrow> j \<in> set log \<and> settled (snd (gs ! j)))"
    using I unfolding run_inv_def by simp
  from P [rule_format, OF kf] g have Pk:
    "ph = Idle \<longrightarrow> fs ! k = f \<and> k \<notin> set log"
    "ph = Reading \<longrightarrow> exec (fs ! k) s = exec f s \<and> k \<notin> set log \<and> (\<forall>i. \<not> writing gs i)"
    "ph = Writing \<longrightarrow> k \<in> set log \<and>
       (\<forall>i < length fs. i \<noteq> k \<longrightarrow> fst (gs ! i) = Idle \<or> fst (gs ! i) = Finished)"
    by auto
  have fx: "snd (exec f x) = x" for x
    using settled_exec [OF f, of x s] by simp
  have fv: "fst (exec f v) = fst (exec f s)"
    using settled_exec [OF f, of v s] by simp
  define v' where "v' = (if ph = Writing then s else v)"
  have S: "serve (map ((!) fs) log') s0 = (map (\<lambda>j. fst (exec (snd (gs' ! j)) s)) log', v')"
  proof (cases ph)
    case Idle
    with Pk have "fs ! k = f" by simp
    then show ?thesis
      using v(1) Idle nk g by (simp add: log'_def v'_def serve_snoc ex fx fv)
  next
    case Reading
    with Pk v(3) have "exec (fs ! k) s = exec f s" "v = s" by simp_all
    then show ?thesis
      using v(1) Reading nk g by (simp add: log'_def v'_def serve_snoc ex fx)
  next
    case Writing
    then have "writing gs k" using g kf len by (simp add: writing_def)
    with v(2) g fx [of s] have "v = s" by simp
    then show ?thesis
      using v(1) Writing by (simp add: log'_def v'_def ex)
  next
    case Finished
    with ph show ?thesis by simp
  qed
  have V: "\<forall>i. writing gs' i \<longrightarrow> v' = snd (exec (snd (gs' ! i)) s)"
    "(\<forall>i. \<not> writing gs' i) \<longrightarrow> v' = s"
  proof -
    show "\<forall>i. writing gs' i \<longrightarrow> v' = snd (exec (snd (gs' ! i)) s)"
    proof (intro allI impI)
      fix i assume i: "writing gs' i"
      then have wi: "writing gs i" "i \<noteq> k" by (simp_all add: wr)
      then have "i < length fs" "fst (gs ! i) = Writing" using len by (simp_all add: writing_def)
      with Pk(3) wi(2) kf g have "ph \<noteq> Writing" by auto
      with v(2) wi(1) show "v' = snd (exec (snd (gs' ! i)) s)" by (simp add: v'_def ex)
    qed
    show "(\<forall>i. \<not> writing gs' i) \<longrightarrow> v' = s"
    proof
      assume a: "\<forall>i. \<not> writing gs' i"
      show "v' = s"
      proof (cases "ph = Writing")
        case True
        then show ?thesis by (simp add: v'_def)
      next
        case False
        then have "\<not> writing gs k" using g by (simp add: writing_def)
        with a have "\<forall>i. \<not> writing gs i" unfolding wr by blast
        with v(3) False show ?thesis by (simp add: v'_def)
      qed
    qed
  qed
  have L: "distinct log'" "set log' \<subseteq> {..<length fs}" "k \<in> set log'"
    "\<And>j. j \<noteq> k \<Longrightarrow> j \<in> set log' \<longleftrightarrow> j \<in> set log"
    using D Pk ph kf by (cases ph; auto simp: log'_def)+
  have P': "(fst (gs' ! j) = Idle \<longrightarrow> snd (gs' ! j) = fs ! j \<and> j \<notin> set log') \<and>
        (fst (gs' ! j) = Reading \<longrightarrow>
           exec (snd (gs' ! j)) s = exec (fs ! j) s \<and> j \<notin> set log' \<and>
           (\<forall>i. \<not> writing gs' i)) \<and>
        (fst (gs' ! j) = Writing \<longrightarrow>
           j \<in> set log' \<and>
           (\<forall>i < length fs. i \<noteq> j \<longrightarrow> fst (gs' ! i) = Idle \<or> fst (gs' ! i) = Finished)) \<and>
        (fst (gs' ! j) = Finished \<longrightarrow> j \<in> set log' \<and> settled (snd (gs' ! j)))"
    if j: "j < length fs" for j
  proof (cases "j = k")
    case True
    then show ?thesis
      using nk L(3) f by auto
  next
    case False
    have O: "\<forall>i < length fs. i \<noteq> j \<longrightarrow> fst (gs' ! i) = Idle \<or> fst (gs' ! i) = Finished"
      if "\<forall>i < length fs. i \<noteq> j \<longrightarrow> fst (gs ! i) = Idle \<or> fst (gs ! i) = Finished"
    proof (intro allI impI)
      fix i assume i: "i < length fs" "i \<noteq> j"
      show "fst (gs' ! i) = Idle \<or> fst (gs' ! i) = Finished"
      proof (cases "i = k")
        case True
        then show ?thesis using nk by simp
      next
        case False
        with that i nj [OF False] show ?thesis by simp
      qed
    qed
    have W: "\<forall>i. \<not> writing gs' i" if "\<forall>i. \<not> writing gs i"
      using that wr by simp
    note Pj = P [rule_format, OF j]
    have 1: "fst (gs' ! j) = Idle \<longrightarrow> snd (gs' ! j) = fs ! j \<and> j \<notin> set log'"
      using Pj nj [OF False] L(4) [OF False] by simp
    have 2: "fst (gs' ! j) = Reading \<longrightarrow>
           exec (snd (gs' ! j)) s = exec (fs ! j) s \<and> j \<notin> set log' \<and>
           (\<forall>i. \<not> writing gs' i)"
      using Pj nj [OF False] L(4) [OF False] W by simp
    have 3: "fst (gs' ! j) = Writing \<longrightarrow>
           j \<in> set log' \<and>
           (\<forall>i < length fs. i \<noteq> j \<longrightarrow> fst (gs' ! i) = Idle \<or> fst (gs' ! i) = Finished)"
      using Pj nj [OF False] L(4) [OF False] O by simp
    have 4: "fst (gs' ! j) = Finished \<longrightarrow> j \<in> set log' \<and> settled (snd (gs' ! j))"
      using Pj nj [OF False] L(4) [OF False] by simp
    from 1 2 3 4 show ?thesis by blast
  qed
  show ?thesis
    unfolding run run_inv_def using len L(1,2) P' S V by auto
qed

lemma run_inv_step:
  assumes I: "run_inv fs s0 (gs, s, log)" and k: "k < length gs"
    and A: "allowed k gs (gs ! k)"
  shows "run_inv fs s0 (run [k] (gs, s, log))"
proof -
  obtain ph f where g: "gs ! k = (ph, f)" by (cases "gs ! k")
  show ?thesis
  proof (cases "ph = Finished")
    case True
    with I k g show ?thesis by (intro run_inv_step_finished) simp_all
  next
    case False
    show ?thesis
    proof (cases f)
      case (Read h)
      with I k g False A show ?thesis by (intro run_inv_step_read) simp_all
    next
      case (Update u f')
      with I k g False A show ?thesis by (intro run_inv_step_update) simp_all
    next
      case (Return r)
      with I k g False show ?thesis by (intro run_inv_step_settled [where f = f]) simp_all
    next
      case Panic
      with I k g False show ?thesis by (intro run_inv_step_settled [where f = f]) simp_all
    qed
  qed
qed

lemma run_inv_run:
  "run_inv fs s0 c \<Longrightarrow> isolated schedule c \<Longrightarrow> run_inv fs s0 (run schedule c)"
proof (induction schedule arbitrary: c)
  case Nil
  then show ?case by simp
next
  case (Cons k schedule)
  obtain gs s log where c: "c = (gs, s, log)" by (cases c)
  from Cons.prems(2) have k: "k < length gs" "allowed k gs (gs ! k)"
    "isolated schedule (run [k] (gs, s, log))"
    unfolding c isolated.simps by blast+
  have "run_inv fs s0 (run [k] (gs, s, log))"
    using Cons.prems(1) k(1,2) unfolding c by (rule run_inv_step)
  from Cons.IH [OF this k(3)] show ?case
    unfolding c using run_append [of "[k]" schedule "(gs, s, log)"] by simp
qed

lemma settled_response:
  "settled f \<Longrightarrow> fst (exec f s) = response (Finished, f)"
  by (cases f) simp_all

lemma isolated_run_responses:
  assumes "isolated schedule (start fs, s0, [])"
    and "run schedule (start fs, s0, []) = (gs, s, log)"
    and "list_all (\<lambda>g. fst g \<noteq> Writing) gs"
  shows "distinct log \<and> set log = {k. k < length fs \<and> fst (gs ! k) = Finished} \<and>
         serve (map ((!) fs) log) s0 = (map (\<lambda>k. response (gs ! k)) log, s)"
proof -
  have I: "run_inv fs s0 (gs, s, log)"
    using run_inv_run [OF run_inv_start assms(1)] assms(2) by simp
  have nw: "\<forall>k. \<not> writing gs k"
    using assms(3) by (simp add: writing_def list_all_length)
  from I have len: "length gs = length fs" and D: "distinct log" "set log \<subseteq> {..<length fs}"
    and P: "\<forall>j < length fs.
        (fst (gs ! j) = Idle \<longrightarrow> snd (gs ! j) = fs ! j \<and> j \<notin> set log) \<and>
        (fst (gs ! j) = Reading \<longrightarrow>
           exec (snd (gs ! j)) s = exec (fs ! j) s \<and> j \<notin> set log \<and>
           (\<forall>i. \<not> writing gs i)) \<and>
        (fst (gs ! j) = Writing \<longrightarrow>
           j \<in> set log \<and>
           (\<forall>i < length fs. i \<noteq> j \<longrightarrow> fst (gs ! i) = Idle \<or> fst (gs ! i) = Finished)) \<and>
        (fst (gs ! j) = Finished \<longrightarrow> j \<in> set log \<and> settled (snd (gs ! j)))"
    and V: "\<exists>v. serve (map ((!) fs) log) s0 = (map (\<lambda>k. fst (exec (snd (gs ! k)) s)) log, v) \<and>
          (\<forall>k. writing gs k \<longrightarrow> v = snd (exec (snd (gs ! k)) s)) \<and>
          ((\<forall>k. \<not> writing gs k) \<longrightarrow> v = s)"
    unfolding run_inv_def by simp_all
  have fin: "k \<in> set log \<longleftrightarrow> k < length fs \<and> fst (gs ! k) = Finished" for k
  proof
    assume k: "k \<in> set log"
    then have kf: "k < length fs" using D(2) by auto
    have "fst (gs ! k) \<noteq> Writing"
      using nw kf len by (simp add: writing_def)
    with P [rule_format, OF kf] k have "fst (gs ! k) = Finished"
      by (cases "fst (gs ! k)") auto
    with kf show "k < length fs \<and> fst (gs ! k) = Finished" by simp
  next
    assume "k < length fs \<and> fst (gs ! k) = Finished"
    with P show "k \<in> set log" by simp
  qed
  then have S: "set log = {k. k < length fs \<and> fst (gs ! k) = Finished}"
    by blast
  have R: "fst (exec (snd (gs ! k)) s) = response (gs ! k)" if "k \<in> set log" for k
  proof -
    from that fin have kf: "k < length fs" "fst (gs ! k) = Finished" by simp_all
    with P have "settled (snd (gs ! k))" by simp
    from settled_response [OF this, of s] kf(2) show ?thesis
      by (cases "gs ! k") simp
  qed
  have "map (\<lambda>k. fst (exec (snd (gs ! k)) s)) log = map (\<lambda>k. response (gs ! k)) log"
    using R by simp
  with D(1) S V nw show ?thesis by auto
qed

lemma serve_flows:
  assumes "\<And>q s. exec (flow q) s = (Some (fst (handler q s)), snd (handler q s))"
  shows "serve (map flow reqs) s =
         (map Some (fst (serve_all handler reqs s)), snd (serve_all handler reqs s))"
  by (induction reqs arbitrary: s) (auto simp: assms split: prod.split)

lemma isolated_run_served:
  assumes ex: "\<And>q s. exec (flow q) s = (Some (fst (handler q s)), snd (handler q s))"
    and "isolated schedule (start (map flow reqs), s0, [])"
    and "run schedule (start (map flow reqs), s0, []) = (gs, s, log)"
    and "list_all (\<lambda>g. fst g \<noteq> Writing) gs"
  shows "distinct log \<and> set log = {k. k < length reqs \<and> fst (gs ! k) = Finished} \<and>
         map (\<lambda>k. response (gs ! k)) log =
           map Some (fst (serve_all handler (map ((!) reqs) log) s0)) \<and>
         s = snd (serve_all handler (map ((!) reqs) log) s0)"
proof -
  from isolated_run_responses [OF assms(2,3,4)]
  have D: "distinct log" and S: "set log = {k. k < length reqs \<and> fst (gs ! k) = Finished}"
    and V: "serve (map ((!) (map flow reqs)) log) s0 = (map (\<lambda>k. response (gs ! k)) log, s)"
    by simp_all
  have "map ((!) (map flow reqs)) log = map flow (map ((!) reqs) log)"
    using S by auto
  with V serve_flows [of flow handler "map ((!) reqs) log" s0, OF ex]
  have "map (\<lambda>k. response (gs ! k)) log =
          map Some (fst (serve_all handler (map ((!) reqs) log) s0))"
       "s = snd (serve_all handler (map ((!) reqs) log) s0)"
    by simp_all
  with D S show ?thesis by simp
qed

section \<open>Serial schedules and schedules of reads are isolated\<close>

lemma read_only_isolated:
  "list_all (\<lambda>g. fst g \<noteq> Writing \<and> read_only (snd g)) gs \<Longrightarrow>
   list_all (\<lambda>k. k < length gs) schedule \<Longrightarrow> isolated schedule (gs, s, log)"
proof (induction schedule arbitrary: gs s log)
  case Nil
  show ?case by simp
next
  case (Cons k schedule)
  from Cons.prems(2) have k: "k < length gs" and rest: "list_all (\<lambda>k. k < length gs) schedule"
    by simp_all
  obtain ph f where g: "gs ! k = (ph, f)" by (cases "gs ! k")
  have all: "\<forall>j < length gs. fst (gs ! j) \<noteq> Writing \<and> read_only (snd (gs ! j))"
    using Cons.prems(1) by (simp add: list_all_length)
  with k g have pf: "ph \<noteq> Writing" "read_only f" by auto
  have A: "allowed k gs (gs ! k)"
    unfolding g using pf all by (cases ph; cases f) (auto simp: others_all_iff)
  obtain g' where adv: "advance (gs ! k) s = (g', s)" "fst g' \<noteq> Writing" "read_only (snd g')"
    unfolding g using pf by (cases ph; cases f) auto
  have run: "run [k] (gs, s, log) = (gs[k := g'], s, if commits (gs ! k) then log @ [k] else log)"
    using k adv(1) by simp
  have "list_all (\<lambda>g. fst g \<noteq> Writing \<and> read_only (snd g)) (gs[k := g'])"
    using Cons.prems(1) adv(2,3) set_update_subset_insert [of gs k g']
    by (auto simp: list_all_iff)
  moreover have "list_all (\<lambda>j. j < length (gs[k := g'])) schedule"
    using rest by simp
  ultimately have "isolated schedule (run [k] (gs, s, log))"
    unfolding run by (rule Cons.IH)
  with k A show ?case by simp
qed

lemma isolated_append:
  "isolated (xs @ ys) c \<longleftrightarrow> isolated xs c \<and> isolated ys (run xs c)"
proof (induction xs arbitrary: c)
  case Nil
  show ?case by simp
next
  case (Cons k xs)
  obtain gs s log where c: "c = (gs, s, log)" by (cases c)
  obtain gs' s' log' where r: "run [k] (gs, s, log) = (gs', s', log')"
    by (cases "run [k] (gs, s, log)")
  have "run (k # xs) (gs, s, log) = run xs (gs', s', log')"
    using run_append [of "[k]" xs "(gs, s, log)"] r by simp
  then show ?case
    unfolding c using Cons.IH [of "(gs', s', log')"] r
    by (simp del: run.simps)
qed

lemma block_isolated:
  assumes "\<forall>j < length gs. j \<noteq> k \<longrightarrow> fst (gs ! j) = Idle \<or> fst (gs ! j) = Finished"
    and "k < length gs"
    and "fst (gs ! k) = Finished \<or> within n (snd (gs ! k))"
    and "run (replicate n k) (gs, s, log) = (gs', s', log')"
  shows "isolated (replicate n k) (gs, s, log) \<and> length gs' = length gs \<and>
         (\<forall>j. j \<noteq> k \<longrightarrow> gs' ! j = gs ! j) \<and> fst (gs' ! k) = Finished \<and>
         log' = (if fst (gs ! k) = Idle \<or> fst (gs ! k) = Reading then log @ [k] else log)"
  using assms
proof (induction n arbitrary: gs s log)
  case 0
  then show ?case by auto
next
  case (Suc n)
  obtain ph f where g: "gs ! k = (ph, f)" by (cases "gs ! k")
  obtain g1 s1 where adv: "advance (gs ! k) s = (g1, s1)"
    by (cases "advance (gs ! k) s")
  define gs1 where "gs1 = gs[k := g1]"
  define log1 where "log1 = (if commits (gs ! k) then log @ [k] else log)"
  have r1: "run [k] (gs, s, log) = (gs1, s1, log1)"
    using Suc.prems(2) adv by (simp add: gs1_def log1_def)
  have A: "allowed k gs (gs ! k)"
    unfolding g using Suc.prems(1) by (cases ph; cases f) (auto simp: others_all_iff)
  have g1: "fst g1 = Finished \<or> within n (snd g1)"
    using adv Suc.prems(3) unfolding g by (cases ph; cases f) auto
  have lg: "(if fst g1 = Idle \<or> fst g1 = Reading then log1 @ [k] else log1) =
            (if ph = Idle \<or> ph = Reading then log @ [k] else log)"
    using adv unfolding g log1_def by (cases ph; cases f) auto
  have o1: "\<forall>j < length gs1. j \<noteq> k \<longrightarrow> fst (gs1 ! j) = Idle \<or> fst (gs1 ! j) = Finished"
    using Suc.prems(1) by (simp add: gs1_def)
  have k1: "k < length gs1" "fst (gs1 ! k) = Finished \<or> within n (snd (gs1 ! k))"
    using Suc.prems(2) g1 by (simp_all add: gs1_def)
  have gk1: "gs1 ! k = g1"
    using Suc.prems(2) by (simp add: gs1_def)
  have rn: "run (replicate n k) (gs1, s1, log1) = (gs', s', log')"
    using Suc.prems(4) run_append [of "[k]" "replicate n k" "(gs, s, log)"] r1 by simp
  from Suc.IH [OF o1 k1 rn]
  have IH: "isolated (replicate n k) (gs1, s1, log1)" "length gs' = length gs1"
    "\<forall>j. j \<noteq> k \<longrightarrow> gs' ! j = gs1 ! j" "fst (gs' ! k) = Finished"
    "log' = (if fst (gs1 ! k) = Idle \<or> fst (gs1 ! k) = Reading then log1 @ [k] else log1)"
    by simp_all
  have iso: "isolated (replicate (Suc n) k) (gs, s, log)"
    using Suc.prems(2) A IH(1) r1 by (simp del: run.simps)
  have len: "length gs' = length gs"
    using IH(2) by (simp add: gs1_def)
  have oj: "\<forall>j. j \<noteq> k \<longrightarrow> gs' ! j = gs ! j"
    using IH(3) by (simp add: gs1_def)
  have lg': "log' = (if fst (gs ! k) = Idle \<or> fst (gs ! k) = Reading then log @ [k] else log)"
    using IH(5) lg unfolding gk1 g by simp
  from iso len oj IH(4) lg' show ?case by blast
qed

lemma serial_isolated:
  assumes "\<forall>j < length gs. fst (gs ! j) = Finished \<or> fst (gs ! j) = Idle \<and> within n (snd (gs ! j))"
    and "list_all (\<lambda>k. k < length gs) order"
  shows "isolated (serial n order) (gs, s, log)"
  using assms
proof (induction order arbitrary: gs s log)
  case Nil
  show ?case by (simp add: serial_def)
next
  case (Cons k order)
  obtain gs' s' log' where r: "run (replicate n k) (gs, s, log) = (gs', s', log')"
    by (cases "run (replicate n k) (gs, s, log)")
  from Cons.prems have k: "k < length gs" and rest: "list_all (\<lambda>k. k < length gs) order"
    by simp_all
  have o: "\<forall>j < length gs. j \<noteq> k \<longrightarrow> fst (gs ! j) = Idle \<or> fst (gs ! j) = Finished"
    using Cons.prems(1) by auto
  have w: "fst (gs ! k) = Finished \<or> within n (snd (gs ! k))"
    using Cons.prems(1) k by auto
  from block_isolated [OF o k w r]
  have B: "isolated (replicate n k) (gs, s, log)" "length gs' = length gs"
    "\<forall>j. j \<noteq> k \<longrightarrow> gs' ! j = gs ! j" "fst (gs' ! k) = Finished"
    by simp_all
  have "\<forall>j < length gs'. fst (gs' ! j) = Finished \<or> fst (gs' ! j) = Idle \<and> within n (snd (gs' ! j))"
  proof (intro allI impI)
    fix j assume "j < length gs'"
    then show "fst (gs' ! j) = Finished \<or> fst (gs' ! j) = Idle \<and> within n (snd (gs' ! j))"
      using B Cons.prems(1) by (cases "j = k") auto
  qed
  moreover have "list_all (\<lambda>k. k < length gs') order"
    using rest B(2) by simp
  ultimately have "isolated (serial n order) (gs', s', log')"
    by (rule Cons.IH)
  then show ?case
    using B(1) r by (simp add: serial_def isolated_append)
qed

lemma serial_log:
  assumes "\<forall>j < length gs. fst (gs ! j) = Finished \<or> fst (gs ! j) = Idle \<and> within n (snd (gs ! j))"
    and "list_all (\<lambda>k. k < length gs) order" and "distinct order"
    and "\<forall>k \<in> set order. fst (gs ! k) = Idle"
    and "run (serial n order) (gs, s, log) = (gs', s', log')"
  shows "log' = log @ order \<and> length gs' = length gs \<and>
         (\<forall>j < length gs'. fst (gs' ! j) = Finished \<or> fst (gs' ! j) = Idle)"
  using assms
proof (induction order arbitrary: gs s log)
  case Nil
  then show ?case by (auto simp: serial_def)
next
  case (Cons k order)
  obtain gs1 s1 log1 where r: "run (replicate n k) (gs, s, log) = (gs1, s1, log1)"
    by (cases "run (replicate n k) (gs, s, log)")
  from Cons.prems have k: "k < length gs" and rest: "list_all (\<lambda>k. k < length gs) order"
    and idle: "fst (gs ! k) = Idle" and kn: "k \<notin> set order" and dist: "distinct order"
    by simp_all
  have o: "\<forall>j < length gs. j \<noteq> k \<longrightarrow> fst (gs ! j) = Idle \<or> fst (gs ! j) = Finished"
    using Cons.prems(1) by auto
  have w: "fst (gs ! k) = Finished \<or> within n (snd (gs ! k))"
    using Cons.prems(1) k by auto
  from block_isolated [OF o k w r] idle
  have B: "length gs1 = length gs" "\<forall>j. j \<noteq> k \<longrightarrow> gs1 ! j = gs ! j"
    "fst (gs1 ! k) = Finished" "log1 = log @ [k]"
    by simp_all
  have 1: "\<forall>j < length gs1. fst (gs1 ! j) = Finished \<or> fst (gs1 ! j) = Idle \<and> within n (snd (gs1 ! j))"
  proof (intro allI impI)
    fix j assume "j < length gs1"
    then show "fst (gs1 ! j) = Finished \<or> fst (gs1 ! j) = Idle \<and> within n (snd (gs1 ! j))"
      using B Cons.prems(1) by (cases "j = k") auto
  qed
  have 2: "list_all (\<lambda>k. k < length gs1) order"
    using rest B(1) by simp
  have 3: "\<forall>j \<in> set order. fst (gs1 ! j) = Idle"
    using Cons.prems(4) kn B(2) by auto
  have 4: "run (serial n order) (gs1, s1, log1) = (gs', s', log')"
    using Cons.prems(5) r run_append [of "replicate n k" "serial n order" "(gs, s, log)"]
    by (simp add: serial_def)
  from Cons.IH [OF 1 2 dist 3 4] B(1,4) show ?case by simp
qed

lemma serial_served:
  assumes ex: "\<And>q s. exec (flow q) s = (Some (fst (handler q s)), snd (handler q s))"
    and w: "\<And>q. within n (flow q)"
    and o: "list_all (\<lambda>k. k < length reqs) order" "distinct order"
  shows "isolated (serial n order) (start (map flow reqs), s0, []) \<and>
         (\<exists>gs. run (serial n order) (start (map flow reqs), s0, []) =
                 (gs, snd (serve_all handler (map ((!) reqs) order) s0), order) \<and>
               map (\<lambda>k. response (gs ! k)) order =
                 map Some (fst (serve_all handler (map ((!) reqs) order) s0)))"
proof -
  let ?gs0 = "start (map flow reqs)"
  have 1: "\<forall>j < length ?gs0. fst (?gs0 ! j) = Finished \<or>
             fst (?gs0 ! j) = Idle \<and> within n (snd (?gs0 ! j))"
    using w by (simp add: start_def)
  have 2: "list_all (\<lambda>k. k < length ?gs0) order"
    using o(1) by (simp add: start_def)
  have 3: "\<forall>k \<in> set order. fst (?gs0 ! k) = Idle"
    using o(1) by (simp add: start_def list_all_iff)
  have iso: "isolated (serial n order) (?gs0, s0, [])"
    using 1 2 by (rule serial_isolated)
  obtain gs s log where r: "run (serial n order) (?gs0, s0, []) = (gs, s, log)"
    by (cases "run (serial n order) (?gs0, s0, [])")
  from serial_log [OF 1 2 o(2) 3 r]
  have L: "log = order" "\<forall>j < length gs. fst (gs ! j) = Finished \<or> fst (gs ! j) = Idle"
    by simp_all
  have nw: "list_all (\<lambda>g. fst g \<noteq> Writing) gs"
    using L(2) by (auto simp: list_all_length)
  from isolated_run_served [of flow handler, OF ex iso r nw] L(1) r iso
  show ?thesis by auto
qed

section \<open>The handlers as flows\<close>

lemma deleteTodo_loop_Some:
  "deleteTodo_loop id' TODOS = Some i \<Longrightarrow> i < length TODOS"
proof (induction TODOS arbitrary: i)
  case Nil
  then show ?case by simp
next
  case (Cons todo rest)
  then show ?case by (auto split: if_splits)
qed

lemma exec_todo_flow:
  "exec (todo_flow ToLower req) TODOS =
     (Some (fst (todo_handler ToLower req TODOS)), snd (todo_handler ToLower req TODOS))"
proof (cases req)
  case (GetTodos query status)
  then show ?thesis by (simp add: getTodos_def)
next
  case (AddTodo body)
  then show ?thesis by (cases body) (simp_all add: addTodo_def)
next
  case (GetTodo id')
  then show ?thesis by (simp add: getTodo_def split: option.split)
next
  case (UpdateTodoStatus id')
  then show ?thesis by (simp add: updateTodoStatus_def Let_def split: option.split)
next
  case (DeleteTodo id')
  then show ?thesis
    by (auto simp: deleteTodo_def split: option.split dest: deleteTodo_loop_Some)
qed

lemma exec_book_flow:
  "exec (book_flow lib req) s =
     (Some (fst (book_handler lib req s)), snd (book_handler lib req s))"
proof (cases req)
  case (GetAllBooks search genre availableStr)
  then show ?thesis by (simp add: getAllBooks_def Let_def)
next
  case (CreateBook body)
  then show ?thesis by (cases body) (simp_all add: createBook_def Let_def)
next
  case (GetBook idStr)
  then show ?thesis by (simp add: getBook_def split: option.split prod.split)
next
  case (UpdateBook idStr body)
  then show ?thesis
    by (cases body)
       (auto simp: updateBook_def Let_def split: option.split prod.split
             dest: findBookByID_Some)
next
  case (ToggleBookAvailability idStr)
  then show ?thesis
    by (auto simp: toggleBookAvailability_def Let_def split: option.split prod.split
             dest: findBookByID_Some)
next
  case (DeleteBook idStr)
  then show ?thesis
    by (auto simp: deleteBook_def split: option.split dest: deleteBook_loop_Some)
qed

lemma read_only_todo_flow: "reads_todos req \<Longrightarrow> read_only (todo_flow ToLower req)"
  by (cases req) (auto split: option.split)

lemma read_only_book_flow: "reads_books req \<Longrightarrow> read_only (book_flow lib req)"
  by (cases req) (auto simp: Let_def split: option.split prod.split)

lemma within_todo_flow: "within 4 (todo_flow ToLower req)"
  by (cases req) (auto simp: numeral_eq_Suc Let_def split: option.split sum.split)

lemma within_book_flow: "within 6 (book_flow lib req)"
  by (cases req) (auto simp: numeral_eq_Suc Let_def split: option.split sum.split prod.split)

lemma todo_run:
  "run todo_schedule (start (map (todo_flow ascii_ToLower) todo_requests), TODOS_init, []) =
     ([(Finished, Return (201, TodoJSON water_plants)),
       (Finished, Return (200, TodoList TODOS_init)),
       (Finished, Return (200, TodoJSON ((TODOS_init ! 1)\<lparr>Completed := True\<rparr>)))],
      (TODOS_init @ [water_plants])[1 := (TODOS_init ! 1)\<lparr>Completed := True\<rparr>],
      [1, 0, 2])"
  by (simp add: todo_schedule_def todo_requests_def start_def TODOS_init_def
      water_plants_def Let_def)

lemma todo_iso:
  "isolated todo_schedule (start (map (todo_flow ascii_ToLower) todo_requests), TODOS_init, [])"
  by (simp add: todo_schedule_def todo_requests_def start_def TODOS_init_def
      water_plants_def Let_def others_all_def)

lemma book_run:
  "run book_schedule (start (map (book_flow ascii_stdlib) book_requests), store_init, []) =
     ([(Finished, Return (201, BookMessage ''Book added successfully''
                                 (Some (refactoring\<lparr>ID := 5\<rparr>)))),
       (Finished, Return (200, BookList (library store_init) 4)),
       (Finished, Return (200, BookMessage ''Book deleted successfully'' None))],
      \<lparr>library = [library store_init ! 0, library store_init ! 2, library store_init ! 3,
                  refactoring\<lparr>ID := 5\<rparr>],
        nextID = 6\<rparr>,
      [1, 0, 2])"
  by (simp add: book_schedule_def book_requests_def start_def ascii_stdlib_def store_init_def
      refactoring_def Let_def digit_Atoi_def slices_Delete_def)

lemma book_iso:
  "isolated book_schedule (start (map (book_flow ascii_stdlib) book_requests), store_init, [])"
  by (simp add: book_schedule_def book_requests_def start_def ascii_stdlib_def store_init_def
      refactoring_def Let_def digit_Atoi_def slices_Delete_def others_all_def)

section \<open>The stores under concurrent requests\<close>

text \<open>
  C4, as the code has it. No handler synchronises its accesses of the stores, so
  freedom from concurrent mutation depends on the schedule. For the requests of the
  todo service and for those of the book service:
  \<^item> in every isolated schedule, when no request is in the middle of writing, the
    requests of the log are exactly those that have responded, each once, their
    responses are those of the handlers applied one after the other in the order of
    the log, and the store is the one these handlers leave;
  \<^item> every schedule that runs the requests one after the other, in any order without
    repetition, is isolated, and ends with the responses and the store of the handlers
    applied in that order;
  \<^item> every schedule of list and get requests, the endpoints that filter and look up,
    is isolated, however the requests overlap.
\<close>

theorem stores_isolated_requests:
  "(isolated schedule (start (map (todo_flow ToLower) reqs), TODOS, []) \<and>
    run schedule (start (map (todo_flow ToLower) reqs), TODOS, []) = (gs, TODOS', log) \<and>
    list_all (\<lambda>g. fst g \<noteq> Writing) gs \<longrightarrow>
      distinct log \<and> set log = {k. k < length reqs \<and> fst (gs ! k) = Finished} \<and>
      map (\<lambda>k. response (gs ! k)) log =
        map Some (fst (serve_all (todo_handler ToLower) (map ((!) reqs) log) TODOS)) \<and>
      TODOS' = snd (serve_all (todo_handler ToLower) (map ((!) reqs) log) TODOS)) \<and>
   (isolated bschedule (start (map (book_flow lib) breqs), s, []) \<and>
    run bschedule (start (map (book_flow lib) breqs), s, []) = (bgs, s', blog) \<and>
    list_all (\<lambda>g. fst g \<noteq> Writing) bgs \<longrightarrow>
      distinct blog \<and> set blog = {k. k < length breqs \<and> fst (bgs ! k) = Finished} \<and>
      map (\<lambda>k. response (bgs ! k)) blog =
        map Some (fst (serve_all (book_handler lib) (map ((!) breqs) blog) s)) \<and>
      s' = snd (serve_all (book_handler lib) (map ((!) breqs) blog) s)) \<and>
   (list_all (\<lambda>k. k < length reqs) order \<and> distinct order \<longrightarrow>
      isolated (serial 4 order) (start (map (todo_flow ToLower) reqs), TODOS, []) \<and>
      (\<exists>gs. run (serial 4 order) (start (map (todo_flow ToLower) reqs), TODOS, []) =
              (gs, snd (serve_all (todo_handler ToLower) (map ((!) reqs) order) TODOS), order) \<and>
            map (\<lambda>k. response (gs ! k)) order =
              map Some (fst (serve_all (todo_handler ToLower) (map ((!) reqs) order) TODOS)))) \<and>
   (list_all (\<lambda>k. k < length breqs) border \<and> distinct border \<longrightarrow>
      isolated (serial 6 border) (start (map (book_flow lib) breqs), s, []) \<and>
      (\<exists>gs. run (serial 6 border) (start (map (book_flow lib) breqs), s, []) =
              (gs, snd (serve_all (book_handler lib) (map ((!) breqs) border) s), border) \<and>
            map (\<lambda>k. response (gs ! k)) border =
              map Some (fst (serve_all (book_handler lib) (map ((!) breqs) border) s)))) \<and>
   (list_all reads_todos reqs \<and> list_all (\<lambda>k. k < length reqs) rschedule \<longrightarrow>
      isolated rschedule (start (map (todo_flow ToLower) reqs), TODOS, [])) \<and>
   (list_all reads_books breqs \<and> list_all (\<lambda>k. k < length breqs) rbschedule \<longrightarrow>
      isolated rbschedule (start (map (book_flow lib) breqs), s, []))"
proof (intro conjI impI)
  assume "isolated schedule (start (map (todo_flow ToLower) reqs), TODOS, []) \<and>
    run schedule (start (map (todo_flow ToLower) reqs), TODOS, []) = (gs, TODOS', log) \<and>
    list_all (\<lambda>g. fst g \<noteq> Writing) gs"
  then have a: "isolated schedule (start (map (todo_flow ToLower) reqs), TODOS, [])"
    "run schedule (start (map (todo_flow ToLower) reqs), TODOS, []) = (gs, TODOS', log)"
    "list_all (\<lambda>g. fst g \<noteq> Writing) gs"
    by simp_all
  note T = isolated_run_served [of "todo_flow ToLower" "todo_handler ToLower", OF exec_todo_flow a]
  from T show "distinct log" by simp
  from T show "set log = {k. k < length reqs \<and> fst (gs ! k) = Finished}" by simp
  from T show "map (\<lambda>k. response (gs ! k)) log =
        map Some (fst (serve_all (todo_handler ToLower) (map ((!) reqs) log) TODOS))" by simp
  from T show "TODOS' = snd (serve_all (todo_handler ToLower) (map ((!) reqs) log) TODOS)" by simp
next
  assume "isolated bschedule (start (map (book_flow lib) breqs), s, []) \<and>
    run bschedule (start (map (book_flow lib) breqs), s, []) = (bgs, s', blog) \<and>
    list_all (\<lambda>g. fst g \<noteq> Writing) bgs"
  then have a: "isolated bschedule (start (map (book_flow lib) breqs), s, [])"
    "run bschedule (start (map (book_flow lib) breqs), s, []) = (bgs, s', blog)"
    "list_all (\<lambda>g. fst g \<noteq> Writing) bgs"
    by simp_all
  note T = isolated_run_served [of "book_flow lib" "book_handler lib", OF exec_book_flow a]
  from T show "distinct blog" by simp
  from T show "set blog = {k. k < length breqs \<and> fst (bgs ! k) = Finished}" by simp
  from T show "map (\<lambda>k. response (bgs ! k)) blog =
        map Some (fst (serve_all (book_handler lib) (map ((!) breqs) blog) s))" by simp
  from T show "s' = snd (serve_all (book_handler lib) (map ((!) breqs) blog) s)" by simp
next
  assume "list_all (\<lambda>k. k < length reqs) order \<and> distinct order"
  then have o: "list_all (\<lambda>k. k < length reqs) order" "distinct order" by simp_all
  note T = serial_served [of "todo_flow ToLower" "todo_handler ToLower" 4 reqs order TODOS,
      OF exec_todo_flow within_todo_flow o]
  from T show "isolated (serial 4 order) (start (map (todo_flow ToLower) reqs), TODOS, [])"
    by simp
  from T show "\<exists>gs. run (serial 4 order) (start (map (todo_flow ToLower) reqs), TODOS, []) =
              (gs, snd (serve_all (todo_handler ToLower) (map ((!) reqs) order) TODOS), order) \<and>
            map (\<lambda>k. response (gs ! k)) order =
              map Some (fst (serve_all (todo_handler ToLower) (map ((!) reqs) order) TODOS))"
    by simp
next
  assume "list_all (\<lambda>k. k < length breqs) border \<and> distinct border"
  then have o: "list_all (\<lambda>k. k < length breqs) border" "distinct border" by simp_all
  note T = serial_served [of "book_flow lib" "book_handler lib" 6 breqs border s,
      OF exec_book_flow within_book_flow o]
  from T show "isolated (serial 6 border) (start (map (book_flow lib) breqs), s, [])"
    by simp
  from T show "\<exists>gs. run (serial 6 border) (start (map (book_flow lib) breqs), s, []) =
              (gs, snd (serve_all (book_handler lib) (map ((!) breqs) border) s), border) \<and>
            map (\<lambda>k. response (gs ! k)) border =
              map Some (fst (serve_all (book_handler lib) (map ((!) breqs) border) s))"
    by simp
next
  assume a: "list_all reads_todos reqs \<and> list_all (\<lambda>k. k < length reqs) rschedule"
  have "list_all (\<lambda>g. fst g \<noteq> Writing \<and> read_only (snd g)) (start (map (todo_flow ToLower) reqs))"
    using a by (auto simp: start_def list_all_iff read_only_todo_flow)
  moreover have "list_all (\<lambda>k. k < length (start (map (todo_flow ToLower) reqs))) rschedule"
    using a by (simp add: start_def)
  ultimately show "isolated rschedule (start (map (todo_flow ToLower) reqs), TODOS, [])"
    by (rule read_only_isolated)
next
  assume a: "list_all reads_books breqs \<and> list_all (\<lambda>k. k < length breqs) rbschedule"
  have "list_all (\<lambda>g. fst g \<noteq> Writing \<and> read_only (snd g)) (start (map (book_flow lib) breqs))"
    using a by (auto simp: start_def list_all_iff read_only_book_flow)
  moreover have "list_all (\<lambda>k. k < length (start (map (book_flow lib) breqs))) rbschedule"
    using a by (simp add: start_def)
  ultimately show "isolated rbschedule (start (map (book_flow lib) breqs), s, [])"
    by (rule read_only_isolated)
qed

theorem stores_isolated_requests_witness:
  "isolated todo_schedule (start (map (todo_flow ascii_ToLower) todo_requests), TODOS_init, []) \<and>
   snd (snd (run todo_schedule
      (start (map (todo_flow ascii_ToLower) todo_requests), TODOS_init, []))) = [1, 0, 2] \<and>
   fst (snd (run todo_schedule
      (start (map (todo_flow ascii_ToLower) todo_requests), TODOS_init, []))) =
     snd (serve_all (todo_handler ascii_ToLower)
            [GetTodos [] [], AddTodo (Inr water_plants), UpdateTodoStatus ''2''] TODOS_init) \<and>
   map Some (fst (serve_all (todo_handler ascii_ToLower)
            [GetTodos [] [], AddTodo (Inr water_plants), UpdateTodoStatus ''2''] TODOS_init)) =
     [Some (200, TodoList TODOS_init), Some (201, TodoJSON water_plants),
      Some (200, TodoJSON ((TODOS_init ! 1)\<lparr>Completed := True\<rparr>))] \<and>
   isolated book_schedule (start (map (book_flow ascii_stdlib) book_requests), store_init, []) \<and>
   snd (snd (run book_schedule
      (start (map (book_flow ascii_stdlib) book_requests), store_init, []))) = [1, 0, 2] \<and>
   fst (snd (run book_schedule
      (start (map (book_flow ascii_stdlib) book_requests), store_init, []))) =
     snd (serve_all (book_handler ascii_stdlib)
            [GetAllBooks [] [] [], CreateBook (Inr refactoring), DeleteBook ''2''] store_init) \<and>
   isolated (serial 4 [2, 0, 1])
     (start (map (todo_flow ascii_ToLower) todo_requests), TODOS_init, []) \<and>
   isolated (serial 6 [2, 0, 1])
     (start (map (book_flow ascii_stdlib) book_requests), store_init, []) \<and>
   isolated [0, 1, 1, 0] (start (map (todo_flow ascii_ToLower) todo_reads), TODOS_init, []) \<and>
   isolated [1, 0, 0, 1] (start (map (book_flow ascii_stdlib) book_reads), store_init, [])"
proof -
  note T = stores_isolated_requests
    [where ToLower = ascii_ToLower and lib = ascii_stdlib
       and TODOS = TODOS_init and s = store_init
       and reqs = todo_requests and schedule = todo_schedule and log = "[1, 0, 2]"
       and breqs = book_requests and bschedule = book_schedule and blog = "[1, 0, 2]"
       and order = "[2, 0, 1]" and border = "[2, 0, 1]"]
  note R = stores_isolated_requests
    [where ToLower = ascii_ToLower and lib = ascii_stdlib
       and TODOS = TODOS_init and s = store_init
       and reqs = todo_reads and rschedule = "[0, 1, 1, 0]"
       and breqs = book_reads and rbschedule = "[1, 0, 0, 1]"]
  have t1: "map ((!) todo_requests) [1, 0, 2] =
            [GetTodos [] [], AddTodo (Inr water_plants), UpdateTodoStatus ''2'']"
    by (simp add: todo_requests_def)
  have b1: "map ((!) book_requests) [1, 0, 2] =
            [GetAllBooks [] [] [], CreateBook (Inr refactoring), DeleteBook ''2'']"
    by (simp add: book_requests_def)
  from T [THEN conjunct1, rule_format, OF conjI [OF todo_iso conjI [OF todo_run]]]
  have todo: "map (\<lambda>k. response
        ([(Finished, Return (201, TodoJSON water_plants)),
          (Finished, Return (200, TodoList TODOS_init)),
          (Finished, Return (200, TodoJSON ((TODOS_init ! 1)\<lparr>Completed := True\<rparr>)))] ! k))
        [1, 0, 2] =
      map Some (fst (serve_all (todo_handler ascii_ToLower)
        [GetTodos [] [], AddTodo (Inr water_plants), UpdateTodoStatus ''2''] TODOS_init))"
    "(TODOS_init @ [water_plants])[1 := (TODOS_init ! 1)\<lparr>Completed := True\<rparr>] =
      snd (serve_all (todo_handler ascii_ToLower)
        [GetTodos [] [], AddTodo (Inr water_plants), UpdateTodoStatus ''2''] TODOS_init)"
    unfolding t1 by simp_all
  from T [THEN conjunct2, THEN conjunct1, rule_format, OF conjI [OF book_iso conjI [OF book_run]]]
  have book: "\<lparr>library = [library store_init ! 0, library store_init ! 2, library store_init ! 3,
                  refactoring\<lparr>ID := 5\<rparr>], nextID = 6\<rparr> =
      snd (serve_all (book_handler ascii_stdlib)
        [GetAllBooks [] [] [], CreateBook (Inr refactoring), DeleteBook ''2''] store_init)"
    unfolding b1 by simp
  have ht: "list_all (\<lambda>k. k < length todo_requests) [2, 0, 1] \<and> distinct [2, 0, 1 :: nat]"
    by (simp add: todo_requests_def)
  have hb: "list_all (\<lambda>k. k < length book_requests) [2, 0, 1] \<and> distinct [2, 0, 1 :: nat]"
    by (simp add: book_requests_def)
  have hr: "list_all reads_todos todo_reads \<and>
            list_all (\<lambda>k. k < length todo_reads) [0, 1, 1, 0]"
    by (simp add: todo_reads_def)
  have hbr: "list_all reads_books book_reads \<and>
             list_all (\<lambda>k. k < length book_reads) [1, 0, 0, 1]"
    by (simp add: book_reads_def)
  from T [THEN conjunct2, THEN conjunct2, THEN conjunct1, rule_format, OF ht]
  have ts: "isolated (serial 4 [2, 0, 1])
     (start (map (todo_flow ascii_ToLower) todo_requests), TODOS_init, [])"
    by (rule conjunct1)
  from T [THEN conjunct2, THEN conjunct2, THEN conjunct2, THEN conjunct1, rule_format, OF hb]
  have bs: "isolated (serial 6 [2, 0, 1])
     (start (map (book_flow ascii_stdlib) book_requests), store_init, [])"
    by (rule conjunct1)
  from R [THEN conjunct2, THEN conjunct2, THEN conjunct2, THEN conjunct2, THEN conjunct1,
          rule_format, OF hr]
  have tr: "isolated [0, 1, 1, 0]
     (start (map (todo_flow ascii_ToLower) todo_reads), TODOS_init, [])" .
  from R [THEN conjunct2, THEN conjunct2, THEN conjunct2, THEN conjunct2, THEN conjunct2,
          rule_format, OF hbr]
  have br: "isolated [1, 0, 0, 1]
     (start (map (book_flow ascii_stdlib) book_reads), store_init, [])" .
  have resp: "map (\<lambda>k. response
        ([(Finished, Return (201, TodoJSON water_plants)),
          (Finished, Return (200, TodoList TODOS_init)),
          (Finished, Return (200, TodoJSON ((TODOS_init ! 1)\<lparr>Completed := True\<rparr>)))] ! k))
        [1, 0, 2] =
      [Some (200, TodoList TODOS_init), Some (201, TodoJSON water_plants),
       Some (200, TodoJSON ((TODOS_init ! 1)\<lparr>Completed := True\<rparr>))]"
    by simp
  have c2: "snd (snd (run todo_schedule
      (start (map (todo_flow ascii_ToLower) todo_requests), TODOS_init, []))) = [1, 0, 2]"
    by (simp only: todo_run snd_conv)
  have c3: "fst (snd (run todo_schedule
      (start (map (todo_flow ascii_ToLower) todo_requests), TODOS_init, []))) =
     snd (serve_all (todo_handler ascii_ToLower)
            [GetTodos [] [], AddTodo (Inr water_plants), UpdateTodoStatus ''2''] TODOS_init)"
    by (simp only: todo_run fst_conv snd_conv todo(2))
  note c4 = todo(1) [unfolded resp, symmetric]
  have c6: "snd (snd (run book_schedule
      (start (map (book_flow ascii_stdlib) book_requests), store_init, []))) = [1, 0, 2]"
    by (simp only: book_run snd_conv)
  have c7: "fst (snd (run book_schedule
      (start (map (book_flow ascii_stdlib) book_requests), store_init, []))) =
     snd (serve_all (book_handler ascii_stdlib)
            [GetAllBooks [] [] [], CreateBook (Inr refactoring), DeleteBook ''2''] store_init)"
    by (simp only: book_run fst_conv snd_conv book)
  show ?thesis
    by (intro conjI) (fact todo_iso c2 c3 c4 book_iso c6 c7 ts bs tr br)+
qed

text \<open>
  C4 as it is stated fails for two overlapping \<open>addTodo\<close> requests from the initial
  store: both handlers read \<open>TODOS\<close> before either assigns it, both are answered 201,
  and the store that remains holds the second todo only, where the handlers applied one
  after the other leave both. The schedule is not isolated.
\<close>

theorem addTodo_lost_update:
  "map response (fst (run [0, 1, 0, 1, 0, 1]
     (start (map (todo_flow ascii_ToLower)
        [AddTodo (Inr \<lparr>Todo.ID = ''5'', Item = ''Water the plants'', Completed = False\<rparr>),
         AddTodo (Inr \<lparr>Todo.ID = ''6'', Item = ''Call home'', Completed = False\<rparr>)]),
      TODOS_init, []))) =
     [Some (201, TodoJSON \<lparr>Todo.ID = ''5'', Item = ''Water the plants'', Completed = False\<rparr>),
      Some (201, TodoJSON \<lparr>Todo.ID = ''6'', Item = ''Call home'', Completed = False\<rparr>)] \<and>
   fst (snd (run [0, 1, 0, 1, 0, 1]
     (start (map (todo_flow ascii_ToLower)
        [AddTodo (Inr \<lparr>Todo.ID = ''5'', Item = ''Water the plants'', Completed = False\<rparr>),
         AddTodo (Inr \<lparr>Todo.ID = ''6'', Item = ''Call home'', Completed = False\<rparr>)]),
      TODOS_init, []))) =
     TODOS_init @ [\<lparr>Todo.ID = ''6'', Item = ''Call home'', Completed = False\<rparr>] \<and>
   snd (serve_all (todo_handler ascii_ToLower)
        [AddTodo (Inr \<lparr>Todo.ID = ''5'', Item = ''Water the plants'', Completed = False\<rparr>),
         AddTodo (Inr \<lparr>Todo.ID = ''6'', Item = ''Call home'', Completed = False\<rparr>)]
        TODOS_init) =
     TODOS_init @ [\<lparr>Todo.ID = ''5'', Item = ''Water the plants'', Completed = False\<rparr>,
                   \<lparr>Todo.ID = ''6'', Item = ''Call home'', Completed = False\<rparr>] \<and>
   \<not> isolated [0, 1, 0, 1, 0, 1]
     (start (map (todo_flow ascii_ToLower)
        [AddTodo (Inr \<lparr>Todo.ID = ''5'', Item = ''Water the plants'', Completed = False\<rparr>),
         AddTodo (Inr \<lparr>Todo.ID = ''6'', Item = ''Call home'', Completed = False\<rparr>)]),
      TODOS_init, [])"
  by (simp add: start_def addTodo_def others_all_def)

section \<open>Distinct book IDs under requests\<close>

lemma book_handler_inv:
  assumes "ids_distinct s" "nextID_above s"
    and "sint (nextID s) + (if creates req then 1 else 0) < 2 ^ 63"
  shows "ids_distinct (snd (book_handler lib req s)) \<and>
         nextID_above (snd (book_handler lib req s)) \<and>
         sint (nextID (snd (book_handler lib req s))) \<le>
           sint (nextID s) + (if creates req then 1 else 0)"
proof (cases req)
  case (GetAllBooks search genre availableStr)
  with assms show ?thesis by (simp add: getAllBooks_def Let_def)
next
  case (CreateBook body)
  with assms(3) have nm: "nextID s \<noteq> max_go_int"
    by (intro sint_go_int_less) simp
  from createBook_nextID [of body s] sint_succ_go_int [OF nm]
  have "sint (nextID (snd (createBook body s))) \<le> sint (nextID s) + 1"
    by auto
  with createBook_inv [OF assms(1,2) nm, of body] CreateBook show ?thesis
    by simp
next
  case (GetBook idStr)
  with assms show ?thesis by (simp add: getBook_def split: option.split prod.split)
next
  case (UpdateBook idStr body)
  from updateBook_ids [of "strconv_Atoi lib" idStr body s]
  have "ids_distinct (snd (updateBook (strconv_Atoi lib) idStr body s)) \<and>
        nextID_above (snd (updateBook (strconv_Atoi lib) idStr body s))"
    using assms(1,2) by (intro inv_from_ids) simp_all
  with UpdateBook updateBook_ids [of "strconv_Atoi lib" idStr body s] show ?thesis
    by simp
next
  case (ToggleBookAvailability idStr)
  from toggleBookAvailability_ids [of "strconv_Atoi lib" idStr s]
  have "ids_distinct (snd (toggleBookAvailability (strconv_Atoi lib) idStr s)) \<and>
        nextID_above (snd (toggleBookAvailability (strconv_Atoi lib) idStr s))"
    using assms(1,2) by (intro inv_from_ids) simp_all
  with ToggleBookAvailability toggleBookAvailability_ids [of "strconv_Atoi lib" idStr s]
  show ?thesis by simp
next
  case (DeleteBook idStr)
  with deleteBook_inv [OF assms(1,2), of "strconv_Atoi lib" idStr]
    deleteBook_removes [of "strconv_Atoi lib" idStr s]
  show ?thesis by simp
qed

lemma serve_all_books_inv:
  "ids_distinct s \<Longrightarrow> nextID_above s \<Longrightarrow>
   sint (nextID s) + int (length (filter creates reqs)) < 2 ^ 63 \<Longrightarrow>
   ids_distinct (snd (serve_all (book_handler lib) reqs s)) \<and>
   nextID_above (snd (serve_all (book_handler lib) reqs s))"
proof (induction reqs arbitrary: s)
  case Nil
  then show ?case by simp
next
  case (Cons req reqs)
  have b: "sint (nextID s) + (if creates req then 1 else 0) < 2 ^ 63"
    using Cons.prems(3) by (simp split: if_splits)
  note H = book_handler_inv [OF Cons.prems(1,2) b, of lib]
  have "sint (nextID (snd (book_handler lib req s))) + int (length (filter creates reqs)) < 2 ^ 63"
    using H Cons.prems(3) by (simp split: if_splits)
  moreover have "snd (serve_all (book_handler lib) (req # reqs) s) =
                 snd (serve_all (book_handler lib) reqs (snd (book_handler lib req s)))"
    by (simp split: prod.split)
  ultimately show ?case
    using Cons.IH [of "snd (book_handler lib req s)"] H by simp
qed

lemma served_filter_le:
  assumes "distinct log" "set log \<subseteq> {..<length reqs}"
  shows "length (filter P (map ((!) reqs) log)) \<le> length (filter P reqs)"
proof -
  have "length (filter P (map ((!) reqs) log)) = length (filter (\<lambda>k. P (reqs ! k)) log)"
    by (simp add: filter_map comp_def)
  also have "\<dots> = card {k \<in> set log. P (reqs ! k)}"
    using assms(1) by (simp add: distinct_length_filter Int_def conj_commute)
  also have "\<dots> \<le> card {k. k < length reqs \<and> P (reqs ! k)}"
    using assms(2) by (intro card_mono) auto
  also have "\<dots> = length (filter P reqs)"
    by (simp add: length_filter_conv_card)
  finally show ?thesis .
qed

lemma createBooks_inv:
  "ids_distinct s \<Longrightarrow> nextID_above s \<Longrightarrow> sint (nextID s) + int n < 2 ^ 63 \<Longrightarrow>
   Title newBook \<noteq> [] \<Longrightarrow> Author newBook \<noteq> [] \<Longrightarrow>
   ids_distinct (createBooks n newBook s) \<and> nextID_above (createBooks n newBook s) \<and>
   nextID (createBooks n newBook s) = nextID s + of_nat n"
proof (induction n arbitrary: s)
  case 0
  then show ?case by simp
next
  case (Suc n)
  have nm: "nextID s \<noteq> max_go_int"
    using Suc.prems(3) by (intro sint_go_int_less) simp
  let ?s = "snd (createBook (Inr newBook) s)"
  have n1: "nextID ?s = nextID s + 1"
    using Suc.prems(4,5) by (simp add: createBook_def Let_def)
  have "sint (nextID ?s) + int n < 2 ^ 63"
    using Suc.prems(3) sint_succ_go_int [OF nm] n1 by simp
  with Suc.IH [of ?s] createBook_inv [OF Suc.prems(1,2) nm, of "Inr newBook"] Suc.prems(4,5) n1
  show ?case by (simp add: add.assoc)
qed

text \<open>
  C9, as the code has it. From a store whose IDs are pairwise distinct and below
  \<open>nextID\<close>, for handlers applied to the store one at a time:
  \<^item> \<open>createBook\<close> keeps the IDs pairwise distinct, and keeps \<open>nextID\<close> above every ID
    unless \<open>nextID\<close> is the largest \<open>int\<close>; a valid new book gets the current \<open>nextID\<close>
    as its ID, whatever ID the client sent, before \<open>nextID\<close> is incremented;
  \<^item> \<open>updateBook\<close> and \<open>toggleBookAvailability\<close> leave the IDs of the library and
    \<open>nextID\<close> as they were; \<open>deleteBook\<close> leaves \<open>nextID\<close> and removes at most one
    entry; all three keep both properties;
  and for requests served concurrently:
  \<^item> after every isolated schedule of requests, when no request is in the middle of
    writing and the \<open>createBook\<close> requests are too few to carry \<open>nextID\<close> past the largest
    \<open>int\<close>, the IDs of the store are pairwise distinct and below \<open>nextID\<close>.
\<close>

theorem library_ids_distinct_preserved:
  assumes "ids_distinct s" and "nextID_above s"
  shows "ids_distinct (snd (createBook body s)) \<and>
         (nextID s \<noteq> max_go_int \<longrightarrow> nextID_above (snd (createBook body s))) \<and>
         (Title newBook \<noteq> [] \<and> Author newBook \<noteq> [] \<longrightarrow>
            snd (createBook (Inr newBook) s) =
              s\<lparr>library := library s @ [newBook\<lparr>ID := nextID s\<rparr>],
                nextID := nextID s + 1\<rparr>) \<and>
         map Book.ID (library (snd (updateBook Atoi idStr body s))) = map Book.ID (library s) \<and>
         nextID (snd (updateBook Atoi idStr body s)) = nextID s \<and>
         ids_distinct (snd (updateBook Atoi idStr body s)) \<and>
         nextID_above (snd (updateBook Atoi idStr body s)) \<and>
         map Book.ID (library (snd (toggleBookAvailability Atoi idStr s))) =
           map Book.ID (library s) \<and>
         nextID (snd (toggleBookAvailability Atoi idStr s)) = nextID s \<and>
         ids_distinct (snd (toggleBookAvailability Atoi idStr s)) \<and>
         nextID_above (snd (toggleBookAvailability Atoi idStr s)) \<and>
         nextID (snd (deleteBook Atoi idStr s)) = nextID s \<and>
         (library (snd (deleteBook Atoi idStr s)) = library s \<or>
          (\<exists>i < length (library s).
             library (snd (deleteBook Atoi idStr s)) =
               take i (library s) @ drop (Suc i) (library s))) \<and>
         ids_distinct (snd (deleteBook Atoi idStr s)) \<and>
         nextID_above (snd (deleteBook Atoi idStr s)) \<and>
         (isolated schedule (start (map (book_flow lib) reqs), s, []) \<and>
          run schedule (start (map (book_flow lib) reqs), s, []) = (gs, s', log) \<and>
          list_all (\<lambda>g. fst g \<noteq> Writing) gs \<and>
          sint (nextID s) + int (length (filter creates reqs)) < 2 ^ 63 \<longrightarrow>
            ids_distinct s' \<and> nextID_above s')"
proof -
  have create: "ids_distinct (snd (createBook body s))"
    using assms by (rule createBook_distinct)
  have above: "nextID s \<noteq> max_go_int \<longrightarrow> nextID_above (snd (createBook body s))"
    using assms createBook_inv by blast
  have shape: "Title newBook \<noteq> [] \<and> Author newBook \<noteq> [] \<longrightarrow>
      snd (createBook (Inr newBook) s) =
        s\<lparr>library := library s @ [newBook\<lparr>ID := nextID s\<rparr>], nextID := nextID s + 1\<rparr>"
    by (simp add: createBook_def Let_def)
  note upd = updateBook_ids [of Atoi idStr body s]
  have upd_inv: "ids_distinct (snd (updateBook Atoi idStr body s)) \<and>
      nextID_above (snd (updateBook Atoi idStr body s))"
    using assms upd by (intro inv_from_ids) simp_all
  note tog = toggleBookAvailability_ids [of Atoi idStr s]
  have tog_inv: "ids_distinct (snd (toggleBookAvailability Atoi idStr s)) \<and>
      nextID_above (snd (toggleBookAvailability Atoi idStr s))"
    using assms tog by (intro inv_from_ids) simp_all
  note del = deleteBook_removes [of Atoi idStr s]
  note del_inv = deleteBook_inv [OF assms, of Atoi idStr]
  have runs: "isolated schedule (start (map (book_flow lib) reqs), s, []) \<and>
          run schedule (start (map (book_flow lib) reqs), s, []) = (gs, s', log) \<and>
          list_all (\<lambda>g. fst g \<noteq> Writing) gs \<and>
          sint (nextID s) + int (length (filter creates reqs)) < 2 ^ 63 \<longrightarrow>
            ids_distinct s' \<and> nextID_above s'"
  proof
    assume a: "isolated schedule (start (map (book_flow lib) reqs), s, []) \<and>
          run schedule (start (map (book_flow lib) reqs), s, []) = (gs, s', log) \<and>
          list_all (\<lambda>g. fst g \<noteq> Writing) gs \<and>
          sint (nextID s) + int (length (filter creates reqs)) < 2 ^ 63"
    then have b: "isolated schedule (start (map (book_flow lib) reqs), s, [])"
      "run schedule (start (map (book_flow lib) reqs), s, []) = (gs, s', log)"
      "list_all (\<lambda>g. fst g \<noteq> Writing) gs"
      by simp_all
    from isolated_run_served [of "book_flow lib" "book_handler lib", OF exec_book_flow b]
    have L: "distinct log" "set log = {k. k < length reqs \<and> fst (gs ! k) = Finished}"
      "s' = snd (serve_all (book_handler lib) (map ((!) reqs) log) s)"
      by simp_all
    have "length (filter creates (map ((!) reqs) log)) \<le> length (filter creates reqs)"
      using L(1,2) by (intro served_filter_le) auto
    with a have "sint (nextID s) + int (length (filter creates (map ((!) reqs) log))) < 2 ^ 63"
      by simp
    from serve_all_books_inv [OF assms this, of lib] L(3)
    show "ids_distinct s' \<and> nextID_above s'" by simp
  qed
  show ?thesis
    using create above shape upd upd_inv tog tog_inv del del_inv runs by blast
qed

theorem library_ids_distinct_preserved_witness:
  "ids_distinct store_init \<and> nextID_above store_init \<and> nextID store_init \<noteq> max_go_int \<and>
   ids_distinct (snd (createBook (Inr refactoring) store_init)) \<and>
   nextID_above (snd (createBook (Inr refactoring) store_init)) \<and>
   snd (createBook (Inr refactoring) store_init) =
     store_init\<lparr>library := library store_init @ [refactoring\<lparr>ID := 5\<rparr>], nextID := 6\<rparr> \<and>
   ids_distinct (snd (updateBook digit_Atoi ''2'' (Inr refactoring) store_init)) \<and>
   ids_distinct (snd (toggleBookAvailability digit_Atoi ''2'' store_init)) \<and>
   ids_distinct (snd (deleteBook digit_Atoi ''2'' store_init)) \<and>
   isolated book_schedule (start (map (book_flow ascii_stdlib) book_requests), store_init, []) \<and>
   sint (nextID store_init) + int (length (filter creates book_requests)) < 2 ^ 63 \<and>
   map Book.ID (library (fst (snd (run book_schedule
     (start (map (book_flow ascii_stdlib) book_requests), store_init, []))))) = [1, 3, 4, 5] \<and>
   ids_distinct (fst (snd (run book_schedule
     (start (map (book_flow ascii_stdlib) book_requests), store_init, [])))) \<and>
   nextID_above (fst (snd (run book_schedule
     (start (map (book_flow ascii_stdlib) book_requests), store_init, []))))"
proof -
  have h1: "ids_distinct store_init"
    by (simp add: ids_distinct_def store_init_def)
  have h2: "nextID_above store_init"
    by (simp add: nextID_above_def store_init_def word_sless_alt)
  have h3: "nextID store_init \<noteq> max_go_int"
    by (simp add: store_init_def max_go_int_def)
  have names: "Title refactoring \<noteq> [] \<and> Author refactoring \<noteq> []"
    by (simp add: refactoring_def)
  have few: "sint (nextID store_init) + int (length (filter creates book_requests)) < 2 ^ 63"
    by (simp add: store_init_def book_requests_def)
  have nw: "list_all (\<lambda>g. fst g \<noteq> Writing)
      [(Finished, Return (201, BookMessage ''Book added successfully''
                                 (Some (refactoring\<lparr>ID := 5\<rparr>)))),
       (Finished, Return (200, BookList (library store_init) 4)),
       (Finished, Return (200, BookMessage ''Book deleted successfully'' None))]"
    by simp
  have new: "store_init\<lparr>library := library store_init @ [refactoring\<lparr>ID := nextID store_init\<rparr>],
                         nextID := nextID store_init + 1\<rparr> =
             store_init\<lparr>library := library store_init @ [refactoring\<lparr>ID := 5\<rparr>], nextID := 6\<rparr>"
    by (simp add: store_init_def)
  have ids: "map Book.ID (library
      \<lparr>library = [library store_init ! 0, library store_init ! 2, library store_init ! 3,
                  refactoring\<lparr>ID := 5\<rparr>], nextID = 6\<rparr>) = [1, 3, 4, 5]"
    by (simp add: store_init_def)
  note T = library_ids_distinct_preserved [OF h1 h2,
      where body = "Inr refactoring" and newBook = refactoring and Atoi = digit_Atoi
        and idStr = "''2''" and lib = ascii_stdlib and reqs = book_requests
        and schedule = book_schedule and log = "[1, 0, 2]"
        and s' = "\<lparr>library = [library store_init ! 0, library store_init ! 2,
                    library store_init ! 3, refactoring\<lparr>ID := 5\<rparr>], nextID = 6\<rparr>"
        and gs = "[(Finished, Return (201, BookMessage ''Book added successfully''
                                 (Some (refactoring\<lparr>ID := 5\<rparr>)))),
                   (Finished, Return (200, BookList (library store_init) 4)),
                   (Finished, Return (200, BookMessage ''Book deleted successfully'' None))]"]
  from T h3 names book_iso book_run nw few
  have c: "ids_distinct (snd (createBook (Inr refactoring) store_init)) \<and>
        nextID_above (snd (createBook (Inr refactoring) store_init)) \<and>
        snd (createBook (Inr refactoring) store_init) =
          store_init\<lparr>library := library store_init @ [refactoring\<lparr>ID := nextID store_init\<rparr>],
                      nextID := nextID store_init + 1\<rparr> \<and>
        ids_distinct (snd (updateBook digit_Atoi ''2'' (Inr refactoring) store_init)) \<and>
        ids_distinct (snd (toggleBookAvailability digit_Atoi ''2'' store_init)) \<and>
        ids_distinct (snd (deleteBook digit_Atoi ''2'' store_init)) \<and>
        ids_distinct \<lparr>library = [library store_init ! 0, library store_init ! 2,
                    library store_init ! 3, refactoring\<lparr>ID := 5\<rparr>], nextID = 6\<rparr> \<and>
        nextID_above \<lparr>library = [library store_init ! 0, library store_init ! 2,
                    library store_init ! 3, refactoring\<lparr>ID := 5\<rparr>], nextID = 6\<rparr>"
    by blast
  have r: "fst (snd (run book_schedule
     (start (map (book_flow ascii_stdlib) book_requests), store_init, []))) =
     \<lparr>library = [library store_init ! 0, library store_init ! 2,
                    library store_init ! 3, refactoring\<lparr>ID := 5\<rparr>], nextID = 6\<rparr>"
    by (simp only: book_run fst_conv snd_conv)
  from h1 h2 h3 book_iso few c [unfolded new] ids show ?thesis
    unfolding r by blast
qed

text \<open>
  C9 as it is stated, for every operation in every state, fails twice. Two overlapping
  \<open>createBook\<close> requests from the initial store both read \<open>nextID\<close> before either
  increments it, and the library holds the ID 5 twice. And after 9223372036854775802
  \<open>createBook\<close> requests, one after the other from the initial store, the IDs are still
  pairwise distinct and below \<open>nextID\<close>, which is the largest \<open>int\<close>; the next
  \<open>createBook\<close> wraps it around to the smallest, below every ID of the library.
\<close>

theorem createBook_duplicate_ids:
  "\<not> ids_distinct (fst (snd (run [0, 1, 0, 0, 0, 0, 0, 1, 1, 1, 1, 1]
     (start (map (book_flow ascii_stdlib)
        [CreateBook (Inr \<lparr>ID = 0, Title = ''Refactoring'', Author = ''Martin Fowler'',
              Genre = ''Technology'', Pages = 448, Available = True, PublishedYear = 1999\<rparr>),
         CreateBook (Inr \<lparr>ID = 0, Title = ''Code Complete'', Author = ''Steve McConnell'',
              Genre = ''Technology'', Pages = 960, Available = True, PublishedYear = 2004\<rparr>)]),
      store_init, [])))) \<and>
   ids_distinct (createBooks 9223372036854775802
      \<lparr>ID = 0, Title = ''Refactoring'', Author = ''Martin Fowler'',
        Genre = ''Technology'', Pages = 448, Available = True, PublishedYear = 1999\<rparr> store_init) \<and>
   nextID_above (createBooks 9223372036854775802
      \<lparr>ID = 0, Title = ''Refactoring'', Author = ''Martin Fowler'',
        Genre = ''Technology'', Pages = 448, Available = True, PublishedYear = 1999\<rparr> store_init) \<and>
   \<not> nextID_above (snd (createBook
      (Inr \<lparr>ID = 0, Title = ''Refactoring'', Author = ''Martin Fowler'',
        Genre = ''Technology'', Pages = 448, Available = True, PublishedYear = 1999\<rparr>)
      (createBooks 9223372036854775802
        \<lparr>ID = 0, Title = ''Refactoring'', Author = ''Martin Fowler'',
          Genre = ''Technology'', Pages = 448, Available = True, PublishedYear = 1999\<rparr>
        store_init)))"
proof -
  define b where "b = \<lparr>ID = 0, Title = ''Refactoring'', Author = ''Martin Fowler'',
        Genre = ''Technology'', Pages = 448, Available = True, PublishedYear = (1999 :: go_int)\<rparr>"
  have dup: "map Book.ID (library (fst (snd (run [0, 1, 0, 0, 0, 0, 0, 1, 1, 1, 1, 1]
     (start (map (book_flow ascii_stdlib)
        [CreateBook (Inr b),
         CreateBook (Inr \<lparr>ID = 0, Title = ''Code Complete'', Author = ''Steve McConnell'',
              Genre = ''Technology'', Pages = 960, Available = True, PublishedYear = 2004\<rparr>)]),
      store_init, []))))) = [1, 2, 3, 4, 5, 5]"
    by (simp add: start_def store_init_def Let_def b_def)
  have h: "ids_distinct store_init" "nextID_above store_init"
    "sint (nextID store_init) + int 9223372036854775802 < 2 ^ 63"
    "Title b \<noteq> []" "Author b \<noteq> []"
    by (simp_all add: ids_distinct_def nextID_above_def store_init_def word_sless_alt b_def)
  note R = createBooks_inv [OF h]
  have nx: "nextID (createBooks 9223372036854775802 b store_init) = max_go_int"
    using R by (simp add: store_init_def max_go_int_def)
  have "\<not> nextID_above (snd (createBook (Inr b) (createBooks 9223372036854775802 b store_init)))"
    using h(4,5) nx
    by (simp add: createBook_def Let_def nextID_above_def max_go_int_def word_sless_alt)
  with R dup show ?thesis
    unfolding b_def ids_distinct_def by simp
qed

end
